theory Spec2Isabelle
  imports Complex_Main
begin

section \<open>Data model\<close>

text \<open>
  A grid point is a pair of integer cell coordinates. The points derived by the geometry
  (centroids, build coordinates) have fractional coordinates; the source holds them in
  Python floats, which this development idealises as reals.

  A Python \<open>set\<close> is modelled as a list of its elements in iteration order; \<open>set_add\<close>
  keeps it free of duplicates as \<open>set.add\<close> does. Every theorem about a set-valued
  result is stated on the \<open>set\<close> of the list, so it does not depend on that order.
\<close>

type_synonym point = "int \<times> int"
type_synonym point2 = "real \<times> real"

datatype error =
    ZeroDivisionError
  | StopIteration
  | ValueError
  | KeyError
  | IndexError
  | TypeError
  | AttributeError
  | GeometricNonIntersection
  | DegenerateRamp

definition set_add :: "'a \<Rightarrow> 'a list \<Rightarrow> 'a list" where
  "set_add x xs = (if x \<in> set xs then xs else xs @ [x])"

text \<open>
  \<open>class Ramp\<close>: the point set handed to the constructor and the terrain height map of
  the game info. The height map is a \<open>PixelMap\<close>, which is not part of the sources at
  hand; it is taken as a function from grid points to integer heights.
\<close>

record ramp =
  ramp_points :: "point list"
  height_map :: "point \<Rightarrow> int"

definition x_offset :: real where
  "x_offset = 1 / 2"

definition y_offset :: real where
  "y_offset = - (1 / 2)"

definition height_at :: "ramp \<Rightarrow> point \<Rightarrow> int" where
  "height_at r p = height_map r p"

definition ramp_size :: "ramp \<Rightarrow> nat" where
  "ramp_size r = length (ramp_points r)"

section \<open>Ramp geometry: upper and lower\<close>

text \<open>
  \<open>Ramp.upper\<close>: one pass over \<open>_points\<close> with the running maximum, which starts at
  \<open>-10000\<close>, and the set of points that reach it.
\<close>

fun upper_loop :: "(point \<Rightarrow> int) \<Rightarrow> point list \<Rightarrow> int \<Rightarrow> point list \<Rightarrow> point list" where
  "upper_loop h [] current_max result = result"
| "upper_loop h (p # ps) current_max result =
     (let height = h p in
      if height < current_max then upper_loop h ps current_max result
      else if height = current_max then upper_loop h ps current_max (set_add p result)
      else upper_loop h ps height [p])"

definition upper :: "ramp \<Rightarrow> point list" where
  "upper r = upper_loop (height_at r) (ramp_points r) (- 10000) []"

text \<open>\<open>Ramp.lower\<close>: the same pass with the running minimum, which starts at \<open>10000\<close>.\<close>

fun lower_loop :: "(point \<Rightarrow> int) \<Rightarrow> point list \<Rightarrow> int \<Rightarrow> point list \<Rightarrow> point list" where
  "lower_loop h [] current_min result = result"
| "lower_loop h (p # ps) current_min result =
     (let height = h p in
      if height > current_min then lower_loop h ps current_min result
      else if height = current_min then lower_loop h ps current_min (set_add p result)
      else lower_loop h ps height [p])"

definition lower :: "ramp \<Rightarrow> point list" where
  "lower r = lower_loop (height_at r) (ramp_points r) 10000 []"

text \<open>
  The starting values \<open>-10000\<close> and \<open>10000\<close> of the two passes stand for a height below,
  respectively above, every height of the terrain: \<open>current_max\<close> and \<open>current_min\<close> are
  meant to be replaced by the height of the first point. \<open>heights_in_range\<close> says of a
  ramp that the heights of its points lie between the two starting values.
\<close>

definition heights_in_range :: "ramp \<Rightarrow> bool" where
  "heights_in_range r =
     list_all (\<lambda>p. - 10000 \<le> height_at r p \<and> height_at r p \<le> 10000) (ramp_points r)"

section \<open>Point arithmetic\<close>

text \<open>
  Modelled from the spec: the \<open>Point2\<close> primitives of \<open>position.py\<close>, which is not part
  of the sources at hand: offset by a vector, squared and Euclidean distance, moving
  towards another point by a scalar distance, and the intersection of two circles of the
  same radius. For the intersection the spec gives: with \<open>a = d / 2\<close> and
  \<open>h = sqrt (r\<^sup>2 - a\<^sup>2)\<close> the intersections lie at the midpoint plus and minus \<open>h\<close>
  along the perpendicular of the line through the centres; it fails if \<open>d > 2 r\<close> or
  \<open>d = 0\<close>. The result is a Python set, so two coinciding points are one element.
\<close>

definition to_point2 :: "point \<Rightarrow> point2" where
  "to_point2 p = (of_int (fst p), of_int (snd p))"

definition offset :: "point2 \<Rightarrow> point2 \<Rightarrow> point2" where
  "offset p v = (fst p + fst v, snd p + snd v)"

definition distance_squared :: "point2 \<Rightarrow> point2 \<Rightarrow> real" where
  "distance_squared p q = (fst p - fst q)\<^sup>2 + (snd p - snd q)\<^sup>2"

definition distance_to :: "point2 \<Rightarrow> point2 \<Rightarrow> real" where
  "distance_to p q = sqrt (distance_squared p q)"

definition towards :: "point2 \<Rightarrow> point2 \<Rightarrow> real \<Rightarrow> point2" where
  "towards p q distance =
     (if p = q then p
      else let d = distance_to p q in
        (fst p + (fst q - fst p) / d * distance, snd p + (snd q - snd p) / d * distance))"

definition circle_intersection :: "point2 \<Rightarrow> point2 \<Rightarrow> real \<Rightarrow> error + point2 list" where
  "circle_intersection p q r =
     (let d = distance_to p q in
      if d = 0 \<or> d > 2 * r then Inl GeometricNonIntersection
      else
        let a = d / 2;
            h = sqrt (r\<^sup>2 - a\<^sup>2);
            cx = (fst p + fst q) / 2;
            cy = (snd p + snd q) / 2;
            ux = (fst q - fst p) / d;
            uy = (snd q - snd p) / d;
            intersect1 = (cx + h * uy, cy - h * ux);
            intersect2 = (cx - h * uy, cy + h * ux)
        in Inr (set_add intersect2 [intersect1]))"

section \<open>Python built-ins used by the ramp\<close>

text \<open>
  \<open>max(xs, key=f)\<close>: the first element, in iteration order, whose key no other element
  exceeds; \<open>ValueError\<close> on an empty argument.
\<close>

fun max_loop :: "('a \<Rightarrow> real) \<Rightarrow> 'a \<Rightarrow> 'a list \<Rightarrow> 'a" where
  "max_loop f best [] = best"
| "max_loop f best (x # xs) = (if f x > f best then max_loop f x xs else max_loop f best xs)"

definition max_key :: "('a \<Rightarrow> real) \<Rightarrow> 'a list \<Rightarrow> error + 'a" where
  "max_key f xs = (case xs of [] \<Rightarrow> Inl ValueError | x # rest \<Rightarrow> Inr (max_loop f x rest))"

text \<open>
  \<open>sorted(xs, key=f, reverse=True)\<close>: the keys of all elements are computed first (an
  exception of the key function leaves the sort), then the elements are sorted by
  descending key; the sort is stable, so elements of equal key keep their order.
\<close>

fun keys_of :: "('a \<Rightarrow> error + real) \<Rightarrow> 'a list \<Rightarrow> error + real list" where
  "keys_of f [] = Inr []"
| "keys_of f (x # xs) =
     (case f x of
        Inl e \<Rightarrow> Inl e
      | Inr k \<Rightarrow> (case keys_of f xs of Inl e \<Rightarrow> Inl e | Inr ks \<Rightarrow> Inr (k # ks)))"

definition sorted_reverse :: "('a \<Rightarrow> error + real) \<Rightarrow> 'a list \<Rightarrow> error + 'a list" where
  "sorted_reverse f xs =
     (case keys_of f xs of
        Inl e \<Rightarrow> Inl e
      | Inr ks \<Rightarrow> Inr (map snd (sort_key (\<lambda>kx. - fst kx) (zip ks xs))))"

text \<open>\<open>while len(upper2) > 2: upper2.pop()\<close>: drop the last element until two are left.\<close>

function pop_to_two :: "'a list \<Rightarrow> 'a list" where
  "pop_to_two xs = (if length xs > 2 then pop_to_two (butlast xs) else xs)"
  by pat_completeness auto
termination
  by (relation "measure length") auto

section \<open>Ramp geometry: centres and the two upper points of the wall\<close>

definition top_center :: "ramp \<Rightarrow> error + point2" where
  "top_center r =
     (let up = upper r; len = length up in
      if len = 0 then Inl ZeroDivisionError
      else Inr (real_of_int (sum_list (map fst up)) / real len,
                real_of_int (sum_list (map snd up)) / real len))"

definition bottom_center :: "ramp \<Rightarrow> error + point2" where
  "bottom_center r =
     (let lo = lower r; len = length lo in
      if len = 0 then Inl ZeroDivisionError
      else Inr (real_of_int (sum_list (map fst lo)) / real len,
                real_of_int (sum_list (map snd lo)) / real len))"

text \<open>
  \<open>Ramp.upper2_for_ramp_wall\<close>. The key of the sort reads \<open>bottom_center\<close>, so a failure
  of \<open>bottom_center\<close> surfaces only when \<open>upper\<close> has an element to compute a key for.
\<close>

definition upper2_for_ramp_wall :: "ramp \<Rightarrow> error + point list" where
  "upper2_for_ramp_wall r =
     (if length (upper r) > 5 then Inr []
      else
        case sorted_reverse
               (\<lambda>x. case bottom_center r of
                       Inl e \<Rightarrow> Inl e
                     | Inr bc \<Rightarrow> Inr (distance_squared (to_point2 x) bc))
               (upper r) of
          Inl e \<Rightarrow> Inl e
        | Inr upper2 \<Rightarrow> Inr (pop_to_two upper2))"

section \<open>Wall placement\<close>

text \<open>
  Each of the five operations tests \<open>len(self.upper2_for_ramp_wall) == 2\<close> and raises
  the exception "Not implemented. Trying to access a ramp that has a wrong amount of upper
  points." otherwise; that exception is \<open>DegenerateRamp\<close>. The two \<open>points.pop()\<close> take
  the two elements of the set in its iteration order.
\<close>

definition barracks_in_middle :: "ramp \<Rightarrow> error + point2" where
  "barracks_in_middle r =
     (case upper2_for_ramp_wall r of
        Inl e \<Rightarrow> Inl e
      | Inr [a, b] \<Rightarrow>
          (let p1 = offset (to_point2 a) (x_offset, y_offset);
               p2 = offset (to_point2 b) (x_offset, y_offset)
           in case circle_intersection p1 p2 (sqrt 5) of
                Inl e \<Rightarrow> Inl e
              | Inr intersects \<Rightarrow>
                  (case lower r of
                     [] \<Rightarrow> Inl StopIteration
                   | anyLowerPoint # _ \<Rightarrow>
                       max_key (\<lambda>p. distance_squared p (to_point2 anyLowerPoint)) intersects))
      | Inr _ \<Rightarrow> Inl DegenerateRamp)"

definition depot_in_middle :: "ramp \<Rightarrow> error + point2" where
  "depot_in_middle r =
     (case upper2_for_ramp_wall r of
        Inl e \<Rightarrow> Inl e
      | Inr [a, b] \<Rightarrow>
          (let p1 = offset (to_point2 a) (x_offset, y_offset);
               p2 = offset (to_point2 b) (x_offset, y_offset)
           in case circle_intersection p1 p2 (sqrt (5 / 2)) of
                Inl e \<Rightarrow> Inl e
              | Inr intersects \<Rightarrow>
                  (case lower r of
                     [] \<Rightarrow> Inl StopIteration
                   | anyLowerPoint # _ \<Rightarrow>
                       max_key (\<lambda>p. distance_squared p (to_point2 anyLowerPoint)) intersects))
      | Inr _ \<Rightarrow> Inl DegenerateRamp)"

definition corner_depots :: "ramp \<Rightarrow> error + point2 list" where
  "corner_depots r =
     (case upper2_for_ramp_wall r of
        Inl e \<Rightarrow> Inl e
      | Inr [a, b] \<Rightarrow>
          (let p1 = offset (to_point2 a) (x_offset, y_offset);
               p2 = offset (to_point2 b) (x_offset, y_offset);
               center = towards p1 p2 (distance_to p1 p2 / 2)
           in case depot_in_middle r of
                Inl e \<Rightarrow> Inl e
              | Inr depotPosition \<Rightarrow> circle_intersection center depotPosition (sqrt 5))
      | Inr _ \<Rightarrow> Inl DegenerateRamp)"

definition barracks_can_fit_addon :: "ramp \<Rightarrow> error + bool" where
  "barracks_can_fit_addon r =
     (case upper2_for_ramp_wall r of
        Inl e \<Rightarrow> Inl e
      | Inr [a, b] \<Rightarrow>
          (case barracks_in_middle r of
             Inl e \<Rightarrow> Inl e
           | Inr barracks \<Rightarrow>
               (case corner_depots r of
                  Inl e \<Rightarrow> Inl e
                | Inr depots \<Rightarrow>
                    (case max_key fst depots of
                       Inl e \<Rightarrow> Inl e
                     | Inr depot \<Rightarrow> Inr (fst barracks + 1 > fst depot))))
      | Inr _ \<Rightarrow> Inl DegenerateRamp)"

definition barracks_correct_placement :: "ramp \<Rightarrow> error + point2" where
  "barracks_correct_placement r =
     (case upper2_for_ramp_wall r of
        Inl e \<Rightarrow> Inl e
      | Inr [a, b] \<Rightarrow>
          (case barracks_can_fit_addon r of
             Inl e \<Rightarrow> Inl e
           | Inr True \<Rightarrow> barracks_in_middle r
           | Inr False \<Rightarrow>
               (case barracks_in_middle r of
                  Inl e \<Rightarrow> Inl e
                | Inr barracks \<Rightarrow> Inr (offset barracks (- 2, 0))))
      | Inr _ \<Rightarrow> Inl DegenerateRamp)"

section \<open>Example ramps\<close>

text \<open>
  A two by two ramp on a step: the row \<open>y = 0\<close> at height 0, the row \<open>y = 1\<close> at
  height 1.
\<close>

definition step_ramp :: ramp where
  "step_ramp = \<lparr>ramp_points = [(0, 0), (1, 0), (0, 1), (1, 1)], height_map = (\<lambda>p. snd p)\<rparr>"


text \<open>A ramp with one strictly highest cell.\<close>

definition peak_ramp :: ramp where
  "peak_ramp =
     \<lparr>ramp_points = [(0, 0), (1, 0), (0, 1)],
      height_map = (\<lambda>p. if p = (0, 1) then 1 else 0)\<rparr>"

section \<open>Betweenness\<close>

text \<open>
  The spec speaks of a point "strictly between" two points \<open>a\<close> and \<open>b\<close>. The reading
  taken here is the weakest one: the foot of the perpendicular from \<open>p\<close> onto the line
  through \<open>a\<close> and \<open>b\<close> falls strictly inside the segment from \<open>a\<close> to \<open>b\<close>.
\<close>

definition strictly_between :: "point2 \<Rightarrow> point2 \<Rightarrow> point2 \<Rightarrow> bool" where
  "strictly_between a b p =
     (let t = (fst p - fst a) * (fst b - fst a) + (snd p - snd a) * (snd b - snd a)
      in 0 < t \<and> t < distance_squared a b)"

section \<open>Properties of upper and lower\<close>

lemma set_set_add [simp]: "set (set_add x xs) = insert x (set xs)"
  by (auto simp: set_add_def)

lemma distinct_set_add [simp]: "distinct xs \<Longrightarrow> distinct (set_add x xs)"
  by (simp add: set_add_def)

lemma upper_loop_set:
  "\<forall>q \<in> set res. h q = m \<Longrightarrow>
   set (upper_loop h ps m res) =
     {p \<in> set res \<union> set ps. m \<le> h p \<and> (\<forall>q \<in> set ps. h q \<le> h p)}"
proof (induction ps arbitrary: m res)
  case Nil
  then show ?case by auto
next
  case (Cons a ps)
  consider (below) "h a < m" | (tie) "h a = m" | (above) "m < h a"
    by linarith
  then show ?case
  proof cases
    case below
    have "set (upper_loop h (a # ps) m res) = set (upper_loop h ps m res)"
      using below by simp
    also have "\<dots> = {p \<in> set res \<union> set ps. m \<le> h p \<and> (\<forall>q \<in> set ps. h q \<le> h p)}"
      using Cons.IH [OF Cons.prems] .
    also have "\<dots> = {p \<in> set res \<union> set (a # ps). m \<le> h p \<and> (\<forall>q \<in> set (a # ps). h q \<le> h p)}"
      using below by auto
    finally show ?thesis .
  next
    case tie
    have inv: "\<forall>q \<in> set (set_add a res). h q = m"
      using tie Cons.prems by simp
    have "set (upper_loop h (a # ps) m res) = set (upper_loop h ps m (set_add a res))"
      using tie by simp
    also have "\<dots> = {p \<in> set (set_add a res) \<union> set ps. m \<le> h p \<and> (\<forall>q \<in> set ps. h q \<le> h p)}"
      using Cons.IH [OF inv] .
    also have "\<dots> = {p \<in> set res \<union> set (a # ps). m \<le> h p \<and> (\<forall>q \<in> set (a # ps). h q \<le> h p)}"
      using tie by auto
    finally show ?thesis .
  next
    case above
    have inv: "\<forall>q \<in> set [a]. h q = h a"
      by simp
    have "set (upper_loop h (a # ps) m res) = set (upper_loop h ps (h a) [a])"
      using above by simp
    also have "\<dots> = {p \<in> set [a] \<union> set ps. h a \<le> h p \<and> (\<forall>q \<in> set ps. h q \<le> h p)}"
      using Cons.IH [OF inv] .
    also have "\<dots> = {p \<in> set res \<union> set (a # ps). m \<le> h p \<and> (\<forall>q \<in> set (a # ps). h q \<le> h p)}"
      using above Cons.prems by auto
    finally show ?thesis .
  qed
qed

lemma lower_loop_set:
  "\<forall>q \<in> set res. h q = m \<Longrightarrow>
   set (lower_loop h ps m res) =
     {p \<in> set res \<union> set ps. h p \<le> m \<and> (\<forall>q \<in> set ps. h p \<le> h q)}"
proof (induction ps arbitrary: m res)
  case Nil
  then show ?case by auto
next
  case (Cons a ps)
  consider (over) "m < h a" | (tie) "h a = m" | (under) "h a < m"
    by linarith
  then show ?case
  proof cases
    case over
    have "set (lower_loop h (a # ps) m res) = set (lower_loop h ps m res)"
      using over by simp
    also have "\<dots> = {p \<in> set res \<union> set ps. h p \<le> m \<and> (\<forall>q \<in> set ps. h p \<le> h q)}"
      using Cons.IH [OF Cons.prems] .
    also have "\<dots> = {p \<in> set res \<union> set (a # ps). h p \<le> m \<and> (\<forall>q \<in> set (a # ps). h p \<le> h q)}"
      using over by auto
    finally show ?thesis .
  next
    case tie
    have inv: "\<forall>q \<in> set (set_add a res). h q = m"
      using tie Cons.prems by simp
    have "set (lower_loop h (a # ps) m res) = set (lower_loop h ps m (set_add a res))"
      using tie by simp
    also have "\<dots> = {p \<in> set (set_add a res) \<union> set ps. h p \<le> m \<and> (\<forall>q \<in> set ps. h p \<le> h q)}"
      using Cons.IH [OF inv] .
    also have "\<dots> = {p \<in> set res \<union> set (a # ps). h p \<le> m \<and> (\<forall>q \<in> set (a # ps). h p \<le> h q)}"
      using tie by auto
    finally show ?thesis .
  next
    case under
    have inv: "\<forall>q \<in> set [a]. h q = h a"
      by simp
    have "set (lower_loop h (a # ps) m res) = set (lower_loop h ps (h a) [a])"
      using under by simp
    also have "\<dots> = {p \<in> set [a] \<union> set ps. h p \<le> h a \<and> (\<forall>q \<in> set ps. h p \<le> h q)}"
      using Cons.IH [OF inv] .
    also have "\<dots> = {p \<in> set res \<union> set (a # ps). h p \<le> m \<and> (\<forall>q \<in> set (a # ps). h p \<le> h q)}"
      using under Cons.prems by auto
    finally show ?thesis .
  qed
qed

lemma upper_set:
  "set (upper r) =
     {p \<in> set (ramp_points r). - 10000 \<le> height_at r p \<and> (\<forall>q \<in> set (ramp_points r). height_at r q \<le> height_at r p)}"
  unfolding upper_def by (subst upper_loop_set) auto

lemma lower_set:
  "set (lower r) =
     {p \<in> set (ramp_points r). height_at r p \<le> 10000 \<and> (\<forall>q \<in> set (ramp_points r). height_at r p \<le> height_at r q)}"
  unfolding lower_def by (subst lower_loop_set) auto

lemma upper_loop_distinct:
  "distinct res \<Longrightarrow> distinct (upper_loop h ps m res)"
  by (induction ps arbitrary: m res) (auto simp: Let_def)

lemma lower_loop_distinct:
  "distinct res \<Longrightarrow> distinct (lower_loop h ps m res)"
  by (induction ps arbitrary: m res) (auto simp: Let_def)

lemma distinct_upper: "distinct (upper r)"
  by (simp add: upper_def upper_loop_distinct)

lemma distinct_lower: "distinct (lower r)"
  by (simp add: lower_def lower_loop_distinct)

lemma lower_nonempty:
  assumes "heights_in_range r" and "ramp_points r \<noteq> []"
  shows "lower r \<noteq> []"
proof -
  let ?H = "height_at r ` set (ramp_points r)"
  have "Min ?H \<in> ?H"
    using assms(2) by (intro Min_in) simp_all
  then obtain p where p: "p \<in> set (ramp_points r)" "height_at r p = Min ?H"
    by auto
  have "\<forall>q \<in> set (ramp_points r). height_at r p \<le> height_at r q"
    unfolding p(2) by simp
  moreover have "height_at r p \<le> 10000"
    using assms(1) p(1) by (simp add: heights_in_range_def list_all_iff)
  ultimately have "p \<in> set (lower r)"
    using p(1) unfolding lower_set by simp
  then show ?thesis
    by auto
qed

lemma upper_nonempty:
  assumes "heights_in_range r" and "ramp_points r \<noteq> []"
  shows "upper r \<noteq> []"
proof -
  let ?H = "height_at r ` set (ramp_points r)"
  have "Max ?H \<in> ?H"
    using assms(2) by (intro Max_in) simp_all
  then obtain p where p: "p \<in> set (ramp_points r)" "height_at r p = Max ?H"
    by auto
  have "\<forall>q \<in> set (ramp_points r). height_at r q \<le> height_at r p"
    unfolding p(2) by simp
  moreover have "- 10000 \<le> height_at r p"
    using assms(1) p(1) by (simp add: heights_in_range_def list_all_iff)
  ultimately have "p \<in> set (upper r)"
    using p(1) unfolding upper_set by simp
  then show ?thesis
    by auto
qed

lemma upper_points_nonempty: "upper r \<noteq> [] \<Longrightarrow> ramp_points r \<noteq> []"
  by (auto simp: upper_def)

lemma upper_set_in_range:
  assumes "heights_in_range r"
  shows "set (upper r) =
     {p \<in> set (ramp_points r). \<forall>q \<in> set (ramp_points r). height_at r q \<le> height_at r p}"
  using assms unfolding upper_set by (auto simp: heights_in_range_def list_all_iff)

lemma lower_set_in_range:
  assumes "heights_in_range r"
  shows "set (lower r) =
     {p \<in> set (ramp_points r). \<forall>q \<in> set (ramp_points r). height_at r p \<le> height_at r q}"
  using assms unfolding lower_set by (auto simp: heights_in_range_def list_all_iff)

lemma upper_lower_order_independent:
  fixes r r' :: ramp
  assumes "set (ramp_points r') = set (ramp_points r)" and "height_map r' = height_map r"
  shows "set (upper r') = set (upper r) \<and> set (lower r') = set (lower r)"
proof -
  have "height_at r' = height_at r"
    by (rule ext) (simp add: height_at_def assms(2))
  then show ?thesis
    unfolding upper_set lower_set assms(1) by simp
qed

text \<open>
  C6. For every ramp whose heights lie within the starting values of the two passes,
  \<open>upper\<close> and \<open>lower\<close> are subsets of the ramp's points; every point of \<open>upper\<close> is at
  least as high as every point of the ramp, and every point of \<open>lower\<close> at most as high;
  \<open>upper\<close> holds every point of the ramp at the maximum height and \<open>lower\<close> every point
  at the minimum height, ties included; and a ramp \<open>r'\<close> with the same points in another
  traversal order has the same \<open>upper\<close> and \<open>lower\<close>.
\<close>

theorem upper_lower_extremal:
  fixes r :: ramp
  assumes "heights_in_range r"
  shows "set (upper r) \<subseteq> set (ramp_points r) \<and>
   set (lower r) \<subseteq> set (ramp_points r) \<and>
   (\<forall>p \<in> set (upper r). \<forall>q \<in> set (ramp_points r). height_at r q \<le> height_at r p) \<and>
   (\<forall>p \<in> set (lower r). \<forall>q \<in> set (ramp_points r). height_at r p \<le> height_at r q) \<and>
   set (upper r) =
     {p \<in> set (ramp_points r). \<forall>q \<in> set (ramp_points r). height_at r q \<le> height_at r p} \<and>
   set (lower r) =
     {p \<in> set (ramp_points r). \<forall>q \<in> set (ramp_points r). height_at r p \<le> height_at r q} \<and>
   (\<forall>r' :: ramp. set (ramp_points r') = set (ramp_points r) \<and> height_map r' = height_map r \<longrightarrow>
      set (upper r') = set (upper r) \<and> set (lower r') = set (lower r))"
proof -
  have u: "set (upper r) =
     {p \<in> set (ramp_points r). \<forall>q \<in> set (ramp_points r). height_at r q \<le> height_at r p}"
    by (rule upper_set_in_range [OF assms])
  have l: "set (lower r) =
     {p \<in> set (ramp_points r). \<forall>q \<in> set (ramp_points r). height_at r p \<le> height_at r q}"
    by (rule lower_set_in_range [OF assms])
  have us: "set (upper r) \<subseteq> set (ramp_points r)"
    unfolding u by blast
  have ls: "set (lower r) \<subseteq> set (ramp_points r)"
    unfolding l by blast
  have um: "\<forall>p \<in> set (upper r). \<forall>q \<in> set (ramp_points r). height_at r q \<le> height_at r p"
    unfolding u by blast
  have lm: "\<forall>p \<in> set (lower r). \<forall>q \<in> set (ramp_points r). height_at r p \<le> height_at r q"
    unfolding l by blast
  have ord: "\<forall>r' :: ramp. set (ramp_points r') = set (ramp_points r) \<and> height_map r' = height_map r \<longrightarrow>
      set (upper r') = set (upper r) \<and> set (lower r') = set (lower r)"
    using upper_lower_order_independent by blast
  show ?thesis
    using us ls um lm u l ord by (intro conjI)
qed

theorem upper_lower_extremal_witness:
  "heights_in_range step_ramp \<and>
   set (upper step_ramp) = {(0, 1), (1, 1)} \<and> set (lower step_ramp) = {(0, 0), (1, 0)} \<and>
   set (upper \<lparr>ramp_points = [(1, 1), (0, 1), (1, 0), (0, 0)], height_map = (\<lambda>p. snd p)\<rparr>) =
     {(0, 1), (1, 1)}"
proof -
  have pts: "ramp_points step_ramp = [(0, 0), (1, 0), (0, 1), (1, 1)]"
    by (simp add: step_ramp_def)
  have h: "height_at step_ramp = snd"
    by (rule ext) (simp add: step_ramp_def height_at_def)
  have hr: "heights_in_range step_ramp"
    by (simp add: heights_in_range_def step_ramp_def height_at_def)
  note th = upper_lower_extremal [OF hr]
  note rest = th [THEN conjunct2, THEN conjunct2, THEN conjunct2, THEN conjunct2]
  note us = rest [THEN conjunct1]
  note ls = rest [THEN conjunct2, THEN conjunct1]
  note ord = rest [THEN conjunct2, THEN conjunct2]
  have u: "set (upper step_ramp) = {(0, 1), (1, 1)}"
    unfolding us pts h by auto
  have l: "set (lower step_ramp) = {(0, 0), (1, 0)}"
    unfolding ls pts h by auto
  let ?r = "\<lparr>ramp_points = [(1, 1), (0, 1), (1, 0), (0, 0)], height_map = (\<lambda>p. snd p)\<rparr> :: ramp"
  have "set (ramp_points ?r) = set (ramp_points step_ramp) \<and> height_map ?r = height_map step_ramp"
    by (auto simp: step_ramp_def)
  then have "set (upper ?r) = set (upper step_ramp)"
    using ord by blast
  then show ?thesis
    using hr u l by simp
qed


section \<open>Properties of the sort and of upper2_for_ramp_wall\<close>

declare pop_to_two.simps [simp del]

lemma pop_to_two_take: "pop_to_two xs = take 2 xs"
proof (induction xs rule: pop_to_two.induct)
  case (1 xs)
  show ?case
  proof (cases "length xs > 2")
    case True
    have "pop_to_two xs = pop_to_two (butlast xs)"
      using True by (subst pop_to_two.simps) simp
    also have "\<dots> = take 2 (butlast xs)"
      using 1 True by simp
    also have "\<dots> = take 2 xs"
      using True by (simp add: butlast_conv_take)
    finally show ?thesis .
  next
    case False
    then show ?thesis
      by (subst pop_to_two.simps) simp
  qed
qed

lemma keys_of_total:
  "keys_of (\<lambda>x. Inr (g x)) xs = Inr (map g xs)"
  by (induction xs) auto

lemma keys_of_fail:
  "xs \<noteq> [] \<Longrightarrow> keys_of (\<lambda>x. Inl e) xs = Inl e"
  by (cases xs) auto

lemma insort_key_map_pair:
  "insort_key f (h x) (map h ys) = map h (insort_key (\<lambda>a. f (h a)) x ys)"
  by (induction ys) auto

lemma sort_key_map_pair:
  "sort_key f (map h xs) = map h (sort_key (\<lambda>a. f (h a)) xs)"
  by (induction xs) (auto simp: insort_key_map_pair)

lemma zip_keys: "zip (map g xs) xs = map (\<lambda>x. (g x, x)) xs"
  by (induction xs) auto

lemma sorted_reverse_total:
  "sorted_reverse (\<lambda>x. Inr (g x)) xs = Inr (sort_key (\<lambda>x. - g x) xs)"
  by (simp add: sorted_reverse_def keys_of_total zip_keys sort_key_map_pair comp_def)

lemma sorted_reverse_fail:
  "xs \<noteq> [] \<Longrightarrow> sorted_reverse (\<lambda>x. Inl e) xs = Inl e"
  by (simp add: sorted_reverse_def keys_of_fail)

lemma upper2_some:
  assumes "length (upper r) \<le> 5" and "bottom_center r = Inr bc"
  shows "upper2_for_ramp_wall r =
    Inr (take 2 (sort_key (\<lambda>x. - distance_squared (to_point2 x) bc) (upper r)))"
  using assms by (simp add: upper2_for_ramp_wall_def sorted_reverse_total pop_to_two_take)


lemma upper2_fail:
  assumes "length (upper r) \<le> 5" and "upper r \<noteq> []" and "bottom_center r = Inl e"
  shows "upper2_for_ramp_wall r = Inl e"
  using assms by (simp add: upper2_for_ramp_wall_def sorted_reverse_fail)


lemma bottom_center_defined: "lower r \<noteq> [] \<Longrightarrow> \<exists>bc. bottom_center r = Inr bc"
  by (simp add: bottom_center_def Let_def)

lemma bottom_center_undefined: "lower r = [] \<Longrightarrow> bottom_center r = Inl ZeroDivisionError"
  by (simp add: bottom_center_def Let_def)





section \<open>The example ramps, evaluated\<close>

lemma upper_step_ramp: "upper step_ramp = [(0, 1), (1, 1)]"
  by (simp add: upper_def step_ramp_def height_at_def set_add_def)

lemma lower_step_ramp: "lower step_ramp = [(0, 0), (1, 0)]"
  by (simp add: lower_def step_ramp_def height_at_def set_add_def)

lemma bottom_center_step_ramp: "bottom_center step_ramp = Inr (1 / 2, 0)"
  by (simp add: bottom_center_def lower_step_ramp)

lemma top_center_step_ramp: "top_center step_ramp = Inr (1 / 2, 1)"
  by (simp add: top_center_def upper_step_ramp)


lemma upper_peak_ramp: "upper peak_ramp = [(0, 1)]"
  by (simp add: upper_def peak_ramp_def height_at_def set_add_def)

lemma lower_peak_ramp: "lower peak_ramp = [(0, 0), (1, 0)]"
  by (simp add: lower_def peak_ramp_def height_at_def set_add_def)

lemma heights_in_range_step_ramp: "heights_in_range step_ramp"
  by (simp add: heights_in_range_def step_ramp_def height_at_def)


lemma heights_in_range_peak_ramp: "heights_in_range peak_ramp"
  by (simp add: heights_in_range_def peak_ramp_def height_at_def)

lemma bottom_center_in_range:
  assumes "heights_in_range r" and "upper r \<noteq> []"
  shows "\<exists>bc. bottom_center r = Inr bc"
  using bottom_center_defined [OF lower_nonempty [OF assms(1) upper_points_nonempty [OF assms(2)]]] .




section \<open>The degenerate-ramp error\<close>

lemma keys_of_error: "keys_of f xs = Inl e \<Longrightarrow> \<exists>x \<in> set xs. f x = Inl e"
  by (induction xs) (auto split: sum.splits)

lemma upper2_error:
  assumes "upper2_for_ramp_wall r = Inl e"
  shows "e = ZeroDivisionError"
proof -
  let ?key = "\<lambda>x. case bottom_center r of
                 Inl e \<Rightarrow> Inl e
               | Inr bc \<Rightarrow> Inr (distance_squared (to_point2 x) bc)"
  have "sorted_reverse ?key (upper r) = Inl e"
    using assms by (auto simp: upper2_for_ramp_wall_def split: if_splits sum.splits)
  then have "keys_of ?key (upper r) = Inl e"
    by (auto simp: sorted_reverse_def split: sum.splits)
  then obtain x where "?key x = Inl e"
    using keys_of_error by blast
  then have "bottom_center r = Inl e"
    by (auto split: sum.splits)
  then show ?thesis
    by (auto simp: bottom_center_def Let_def split: if_splits)
qed

lemma circle_intersection_not_degenerate [simp]:
  "circle_intersection p q rad \<noteq> Inl DegenerateRamp"
  by (simp add: circle_intersection_def Let_def)

lemma max_key_not_degenerate [simp]: "max_key f xs \<noteq> Inl DegenerateRamp"
  by (simp add: max_key_def split: list.splits)

lemma barracks_in_middle_degenerate:
  "barracks_in_middle r = Inl DegenerateRamp \<longleftrightarrow>
     (\<exists>u. upper2_for_ramp_wall r = Inr u \<and> length u \<noteq> 2)"
proof (cases "upper2_for_ramp_wall r")
  case (Inl e)
  then show ?thesis
    using upper2_error [OF Inl] by (simp add: barracks_in_middle_def)
next
  case (Inr u)
  show ?thesis
  proof (cases "length u = 2")
    case True
    then obtain a b where u: "u = [a, b]"
      by (auto simp: length_Suc_conv numeral_2_eq_2)
    show ?thesis
      using Inr u
      by (auto simp: barracks_in_middle_def Let_def split: sum.splits list.splits)
  next
    case False
    then have "barracks_in_middle r = Inl DegenerateRamp"
      using Inr by (auto simp: barracks_in_middle_def split: list.splits)
    then show ?thesis
      using Inr False by simp
  qed
qed

lemma depot_in_middle_degenerate:
  "depot_in_middle r = Inl DegenerateRamp \<longleftrightarrow>
     (\<exists>u. upper2_for_ramp_wall r = Inr u \<and> length u \<noteq> 2)"
proof (cases "upper2_for_ramp_wall r")
  case (Inl e)
  then show ?thesis
    using upper2_error [OF Inl] by (simp add: depot_in_middle_def)
next
  case (Inr u)
  show ?thesis
  proof (cases "length u = 2")
    case True
    then obtain a b where u: "u = [a, b]"
      by (auto simp: length_Suc_conv numeral_2_eq_2)
    show ?thesis
      using Inr u
      by (auto simp: depot_in_middle_def Let_def split: sum.splits list.splits)
  next
    case False
    then have "depot_in_middle r = Inl DegenerateRamp"
      using Inr by (auto simp: depot_in_middle_def split: list.splits)
    then show ?thesis
      using Inr False by simp
  qed
qed

lemma corner_depots_degenerate:
  "corner_depots r = Inl DegenerateRamp \<longleftrightarrow>
     (\<exists>u. upper2_for_ramp_wall r = Inr u \<and> length u \<noteq> 2)"
proof (cases "upper2_for_ramp_wall r")
  case (Inl e)
  then show ?thesis
    using upper2_error [OF Inl] by (simp add: corner_depots_def)
next
  case (Inr u)
  show ?thesis
  proof (cases "length u = 2")
    case True
    then obtain a b where u: "u = [a, b]"
      by (auto simp: length_Suc_conv numeral_2_eq_2)
    have "depot_in_middle r \<noteq> Inl DegenerateRamp"
      using depot_in_middle_degenerate [of r] Inr True by simp
    then show ?thesis
      using Inr u
      by (auto simp: corner_depots_def Let_def split: sum.splits)
  next
    case False
    then have "corner_depots r = Inl DegenerateRamp"
      using Inr by (auto simp: corner_depots_def split: list.splits)
    then show ?thesis
      using Inr False by simp
  qed
qed

lemma barracks_can_fit_addon_degenerate:
  "barracks_can_fit_addon r = Inl DegenerateRamp \<longleftrightarrow>
     (\<exists>u. upper2_for_ramp_wall r = Inr u \<and> length u \<noteq> 2)"
proof (cases "upper2_for_ramp_wall r")
  case (Inl e)
  then show ?thesis
    using upper2_error [OF Inl] by (simp add: barracks_can_fit_addon_def)
next
  case (Inr u)
  show ?thesis
  proof (cases "length u = 2")
    case True
    then obtain a b where u: "u = [a, b]"
      by (auto simp: length_Suc_conv numeral_2_eq_2)
    have "barracks_in_middle r \<noteq> Inl DegenerateRamp"
      using barracks_in_middle_degenerate [of r] Inr True by simp
    moreover have "corner_depots r \<noteq> Inl DegenerateRamp"
      using corner_depots_degenerate [of r] Inr True by simp
    ultimately show ?thesis
      using Inr u
      by (auto simp: barracks_can_fit_addon_def split: sum.splits)
  next
    case False
    then have "barracks_can_fit_addon r = Inl DegenerateRamp"
      using Inr by (auto simp: barracks_can_fit_addon_def split: list.splits)
    then show ?thesis
      using Inr False by simp
  qed
qed

lemma barracks_correct_placement_degenerate:
  "barracks_correct_placement r = Inl DegenerateRamp \<longleftrightarrow>
     (\<exists>u. upper2_for_ramp_wall r = Inr u \<and> length u \<noteq> 2)"
proof (cases "upper2_for_ramp_wall r")
  case (Inl e)
  then show ?thesis
    using upper2_error [OF Inl] by (simp add: barracks_correct_placement_def)
next
  case (Inr u)
  show ?thesis
  proof (cases "length u = 2")
    case True
    then obtain a b where u: "u = [a, b]"
      by (auto simp: length_Suc_conv numeral_2_eq_2)
    have "barracks_in_middle r \<noteq> Inl DegenerateRamp"
      using barracks_in_middle_degenerate [of r] Inr True by simp
    moreover have "barracks_can_fit_addon r \<noteq> Inl DegenerateRamp"
      using barracks_can_fit_addon_degenerate [of r] Inr True by simp
    ultimately show ?thesis
      using Inr u
      by (auto simp: barracks_correct_placement_def split: sum.splits bool.splits)
  next
    case False
    then have "barracks_correct_placement r = Inl DegenerateRamp"
      using Inr by (auto simp: barracks_correct_placement_def split: list.splits)
    then show ?thesis
      using Inr False by simp
  qed
qed

lemma upper2_step_ramp: "upper2_for_ramp_wall step_ramp = Inr [(0, 1), (1, 1)]"
proof -
  have "length (upper step_ramp) \<le> 5"
    by (simp add: upper_step_ramp)
  then show ?thesis
    by (simp add: upper2_some [OF _ bottom_center_step_ramp] upper_step_ramp
        distance_squared_def to_point2_def power2_eq_square)
qed

lemma bottom_center_peak_ramp: "bottom_center peak_ramp = Inr (1 / 2, 0)"
  by (simp add: bottom_center_def lower_peak_ramp)

lemma upper2_peak_ramp: "upper2_for_ramp_wall peak_ramp = Inr [(0, 1)]"
proof -
  have "length (upper peak_ramp) \<le> 5"
    by (simp add: upper_peak_ramp)
  then show ?thesis
    by (simp add: upper2_some [OF _ bottom_center_peak_ramp] upper_peak_ramp)
qed

text \<open>
  C3. Each of the five wall-placement operations raises the degenerate-ramp exception
  exactly when \<open>upper2_for_ramp_wall\<close> returns a set that does not have exactly two
  points; so none of them raises it when the set has exactly two points. (Where
  \<open>upper2_for_ramp_wall\<close> itself raises, the operations pass that exception on, which is
  not the degenerate-ramp one.)
\<close>

theorem wall_placement_degenerate_iff:
  "(barracks_in_middle r = Inl DegenerateRamp \<longleftrightarrow>
      (\<exists>u. upper2_for_ramp_wall r = Inr u \<and> length u \<noteq> 2)) \<and>
   (depot_in_middle r = Inl DegenerateRamp \<longleftrightarrow>
      (\<exists>u. upper2_for_ramp_wall r = Inr u \<and> length u \<noteq> 2)) \<and>
   (corner_depots r = Inl DegenerateRamp \<longleftrightarrow>
      (\<exists>u. upper2_for_ramp_wall r = Inr u \<and> length u \<noteq> 2)) \<and>
   (barracks_can_fit_addon r = Inl DegenerateRamp \<longleftrightarrow>
      (\<exists>u. upper2_for_ramp_wall r = Inr u \<and> length u \<noteq> 2)) \<and>
   (barracks_correct_placement r = Inl DegenerateRamp \<longleftrightarrow>
      (\<exists>u. upper2_for_ramp_wall r = Inr u \<and> length u \<noteq> 2))"
  using barracks_in_middle_degenerate [of r] depot_in_middle_degenerate [of r]
    corner_depots_degenerate [of r] barracks_can_fit_addon_degenerate [of r]
    barracks_correct_placement_degenerate [of r]
  by blast

theorem wall_placement_degenerate_iff_witness:
  "upper2_for_ramp_wall peak_ramp = Inr [(0, 1)] \<and>
   barracks_in_middle peak_ramp = Inl DegenerateRamp \<and>
   depot_in_middle peak_ramp = Inl DegenerateRamp \<and>
   corner_depots peak_ramp = Inl DegenerateRamp \<and>
   barracks_can_fit_addon peak_ramp = Inl DegenerateRamp \<and>
   barracks_correct_placement peak_ramp = Inl DegenerateRamp \<and>
   upper2_for_ramp_wall step_ramp = Inr [(0, 1), (1, 1)] \<and>
   barracks_in_middle step_ramp \<noteq> Inl DegenerateRamp \<and>
   depot_in_middle step_ramp \<noteq> Inl DegenerateRamp \<and>
   corner_depots step_ramp \<noteq> Inl DegenerateRamp \<and>
   barracks_can_fit_addon step_ramp \<noteq> Inl DegenerateRamp \<and>
   barracks_correct_placement step_ramp \<noteq> Inl DegenerateRamp"
  using wall_placement_degenerate_iff [of peak_ramp] wall_placement_degenerate_iff [of step_ramp]
  by (simp add: upper2_peak_ramp upper2_step_ramp)

text \<open>
  C10. For every ramp with \<open>1 \<le> |upper| \<le> 5\<close> whose heights lie within the starting
  values of the two passes, \<open>upper2_for_ramp_wall\<close> returns exactly \<open>min |upper| 2\<close>
  points, all of them points of \<open>upper\<close>; when \<open>upper\<close> has a single point it returns
  one point and each of the five wall-placement operations raises the degenerate-ramp
  exception.
\<close>

theorem upper2_size:
  assumes "1 \<le> length (upper r)" and "length (upper r) \<le> 5" and "heights_in_range r"
  shows "\<exists>u. upper2_for_ramp_wall r = Inr u \<and> length u = min (length (upper r)) 2 \<and>
    distinct u \<and> set u \<subseteq> set (upper r) \<and>
    (length (upper r) = 1 \<longrightarrow>
       length u = 1 \<and>
       barracks_in_middle r = Inl DegenerateRamp \<and>
       depot_in_middle r = Inl DegenerateRamp \<and>
       corner_depots r = Inl DegenerateRamp \<and>
       barracks_can_fit_addon r = Inl DegenerateRamp \<and>
       barracks_correct_placement r = Inl DegenerateRamp)"
proof -
  have ne: "upper r \<noteq> []"
    using assms(1) by auto
  obtain bc where bc: "bottom_center r = Inr bc"
    using bottom_center_in_range [OF assms(3) ne] by blast
  define u where "u = take 2 (sort_key (\<lambda>x. - distance_squared (to_point2 x) bc) (upper r))"
  have res: "upper2_for_ramp_wall r = Inr u"
    unfolding u_def by (rule upper2_some [OF assms(2) bc])
  have len: "length u = min (length (upper r)) 2"
    by (simp add: u_def)
  have dist: "distinct u"
    by (simp add: u_def distinct_upper)
  have sub: "set u \<subseteq> set (upper r)"
    using set_take_subset [of 2 "sort_key (\<lambda>x. - distance_squared (to_point2 x) bc) (upper r)"]
    by (simp add: u_def)
  have one: "length (upper r) = 1 \<longrightarrow>
       length u = 1 \<and>
       barracks_in_middle r = Inl DegenerateRamp \<and>
       depot_in_middle r = Inl DegenerateRamp \<and>
       corner_depots r = Inl DegenerateRamp \<and>
       barracks_can_fit_addon r = Inl DegenerateRamp \<and>
       barracks_correct_placement r = Inl DegenerateRamp"
  proof
    assume l1: "length (upper r) = 1"
    then have "\<exists>u. upper2_for_ramp_wall r = Inr u \<and> length u \<noteq> 2"
      using res len by simp
    then have "barracks_in_middle r = Inl DegenerateRamp \<and>
       depot_in_middle r = Inl DegenerateRamp \<and>
       corner_depots r = Inl DegenerateRamp \<and>
       barracks_can_fit_addon r = Inl DegenerateRamp \<and>
       barracks_correct_placement r = Inl DegenerateRamp"
      by (simp only: barracks_in_middle_degenerate depot_in_middle_degenerate
          corner_depots_degenerate barracks_can_fit_addon_degenerate
          barracks_correct_placement_degenerate simp_thms)
    moreover have "length u = 1"
      using len l1 by simp
    ultimately show "length u = 1 \<and>
       barracks_in_middle r = Inl DegenerateRamp \<and>
       depot_in_middle r = Inl DegenerateRamp \<and>
       corner_depots r = Inl DegenerateRamp \<and>
       barracks_can_fit_addon r = Inl DegenerateRamp \<and>
       barracks_correct_placement r = Inl DegenerateRamp"
      by simp
  qed
  show ?thesis
    using res len dist sub one by (intro exI [of _ u] conjI)
qed

theorem upper2_size_witness:
  "1 \<le> length (upper peak_ramp) \<and> length (upper peak_ramp) \<le> 5 \<and> heights_in_range peak_ramp \<and>
   length (upper peak_ramp) = 1 \<and>
   (\<exists>u. upper2_for_ramp_wall peak_ramp = Inr u \<and> length u = 1) \<and>
   barracks_in_middle peak_ramp = Inl DegenerateRamp \<and>
   depot_in_middle peak_ramp = Inl DegenerateRamp \<and>
   corner_depots peak_ramp = Inl DegenerateRamp \<and>
   barracks_can_fit_addon peak_ramp = Inl DegenerateRamp \<and>
   barracks_correct_placement peak_ramp = Inl DegenerateRamp"
proof -
  have h: "1 \<le> length (upper peak_ramp)" "length (upper peak_ramp) \<le> 5"
    by (simp_all add: upper_peak_ramp)
  have one: "length (upper peak_ramp) = 1"
    by (simp add: upper_peak_ramp)
  obtain u where u: "upper2_for_ramp_wall peak_ramp = Inr u"
    "length (upper peak_ramp) = 1 \<longrightarrow>
       length u = 1 \<and>
       barracks_in_middle peak_ramp = Inl DegenerateRamp \<and>
       depot_in_middle peak_ramp = Inl DegenerateRamp \<and>
       corner_depots peak_ramp = Inl DegenerateRamp \<and>
       barracks_can_fit_addon peak_ramp = Inl DegenerateRamp \<and>
       barracks_correct_placement peak_ramp = Inl DegenerateRamp"
    using upper2_size [OF h heights_in_range_peak_ramp] by (elim exE conjE)
  show ?thesis
    using h heights_in_range_peak_ramp one u by blast
qed


section \<open>Properties of max and of the circle intersection\<close>

lemma max_loop_in: "max_loop f b xs \<in> set (b # xs)"
  by (induction xs arbitrary: b) (auto split: if_splits)

lemma max_loop_ge: "x \<in> set (b # xs) \<Longrightarrow> f x \<le> f (max_loop f b xs)"
proof (induction xs arbitrary: b x)
  case Nil
  then show ?case by simp
next
  case (Cons y ys)
  show ?case
  proof (cases "f y > f b")
    case True
    have "f b \<le> f (max_loop f y ys)"
      using Cons.IH [of y y] True by simp
    then show ?thesis
      using Cons.IH [of x y] Cons.prems True by auto
  next
    case False
    have "f y \<le> f (max_loop f b ys)"
      using Cons.IH [of b b] False by simp
    then show ?thesis
      using Cons.IH [of x b] Cons.prems False by auto
  qed
qed

lemma max_key_Inr:
  assumes "max_key f xs = Inr m"
  shows "m \<in> set xs \<and> (\<forall>x \<in> set xs. f x \<le> f m)"
proof (cases xs)
  case Nil
  then show ?thesis using assms by (simp add: max_key_def)
next
  case (Cons b rest)
  then have m: "m = max_loop f b rest"
    using assms by (simp add: max_key_def)
  show ?thesis
    unfolding m Cons using max_loop_in [of f b rest] max_loop_ge [of _ b rest f] by blast
qed

lemma max_key_nonempty: "xs \<noteq> [] \<Longrightarrow> \<exists>m. max_key f xs = Inr m"
  by (cases xs) (simp_all add: max_key_def)

lemma max_key_Max:
  assumes "max_key f xs = Inr m"
  shows "f m = Max (f ` set xs)"
proof -
  have "m \<in> set xs" and "\<forall>x \<in> set xs. f x \<le> f m"
    using max_key_Inr [OF assms] by simp_all
  then show ?thesis
    by (intro Max_eqI [symmetric]) auto
qed

lemma distance_to_nonneg: "0 \<le> distance_to p q"
  by (simp add: distance_to_def distance_squared_def)

lemma distance_to_zero_iff: "distance_to p q = 0 \<longleftrightarrow> p = q"
  by (auto simp: distance_to_def distance_squared_def prod_eq_iff sum_power2_eq_zero_iff)

lemma distance_to_power2: "(distance_to p q)\<^sup>2 = distance_squared p q"
  by (simp add: distance_to_def distance_squared_def)

lemma circle_intersection_Inr:
  assumes "circle_intersection p q r = Inr ints"
  shows "p \<noteq> q \<and> distance_to p q \<le> 2 * r \<and> ints \<noteq> []"
  using assms
  by (auto simp: circle_intersection_def Let_def distance_to_zero_iff set_add_def
      split: if_splits)

lemma circle_intersection_defined:
  assumes "p \<noteq> q" and "distance_to p q \<le> 2 * r"
  shows "\<exists>ints. circle_intersection p q r = Inr ints \<and> ints \<noteq> []"
  using assms
  by (auto simp: circle_intersection_def Let_def distance_to_zero_iff set_add_def)

text \<open>The points returned lie on both circles, and the circles meet nowhere else.\<close>

lemma circle_intersection_sound:
  assumes "circle_intersection p q r = Inr ints" and "i \<in> set ints"
  shows "distance_squared i p = r\<^sup>2 \<and> distance_squared i q = r\<^sup>2"
proof -
  define d where "d = distance_to p q"
  define h where "h = sqrt (r\<^sup>2 - (d / 2)\<^sup>2)"
  define ux where "ux = (fst q - fst p) / d"
  define uy where "uy = (snd q - snd p) / d"
  define cx where "cx = (fst p + fst q) / 2"
  define cy where "cy = (snd p + snd q) / 2"
  have ok: "p \<noteq> q" "d \<le> 2 * r"
    using circle_intersection_Inr [OF assms(1)] by (simp_all add: d_def)
  have dpos: "0 < d"
    using ok(1) distance_to_nonneg [of p q] distance_to_zero_iff [of p q]
    by (simp add: d_def less_le)
  have "(d / 2)\<^sup>2 \<le> r\<^sup>2"
    using dpos ok(2) by (intro power_mono) auto
  then have h2: "h\<^sup>2 = r\<^sup>2 - (d / 2)\<^sup>2"
    by (simp add: h_def)
  have d2: "d\<^sup>2 = (fst p - fst q)\<^sup>2 + (snd p - snd q)\<^sup>2"
    by (simp add: d_def distance_to_power2 distance_squared_def)
  have vx: "fst q - fst p = d * ux" and vy: "snd q - snd p = d * uy"
    using dpos by (simp_all add: ux_def uy_def)
  have unit: "ux\<^sup>2 + uy\<^sup>2 = 1"
  proof -
    have "d\<^sup>2 * (ux\<^sup>2 + uy\<^sup>2) = (d * ux)\<^sup>2 + (d * uy)\<^sup>2"
      by (simp add: power2_eq_square algebra_simps)
    also have "\<dots> = d\<^sup>2"
      unfolding vx [symmetric] vy [symmetric] d2 by (simp add: power2_commute)
    finally show ?thesis using dpos by simp
  qed
  have ints: "ints = set_add (cx - h * uy, cy + h * ux) [(cx + h * uy, cy - h * ux)]"
    using assms(1) ok dpos
    by (simp add: circle_intersection_def Let_def d_def [symmetric] h_def ux_def uy_def cx_def cy_def)
  then consider "i = (cx + h * uy, cy - h * ux)" | "i = (cx - h * uy, cy + h * ux)"
    using assms(2) by auto
  then show ?thesis
  proof cases
    case 1
    have xp: "fst i - fst p = d * ux / 2 + h * uy" and yp: "snd i - snd p = d * uy / 2 - h * ux"
      and xq: "fst i - fst q = - (d * ux / 2) + h * uy" and yq: "snd i - snd q = - (d * uy / 2) - h * ux"
      using vx vy by (simp_all add: 1 cx_def cy_def field_simps)
    have "distance_squared i p = ((d / 2)\<^sup>2 + h\<^sup>2) * (ux\<^sup>2 + uy\<^sup>2)"
      unfolding distance_squared_def xp yp by (simp add: power2_eq_square algebra_simps)
    moreover have "distance_squared i q = ((d / 2)\<^sup>2 + h\<^sup>2) * (ux\<^sup>2 + uy\<^sup>2)"
      unfolding distance_squared_def xq yq by (simp add: power2_eq_square algebra_simps)
    ultimately show ?thesis
      using unit h2 by simp
  next
    case 2
    have xp: "fst i - fst p = d * ux / 2 - h * uy" and yp: "snd i - snd p = d * uy / 2 + h * ux"
      and xq: "fst i - fst q = - (d * ux / 2) - h * uy" and yq: "snd i - snd q = - (d * uy / 2) + h * ux"
      using vx vy by (simp_all add: 2 cx_def cy_def field_simps)
    have "distance_squared i p = ((d / 2)\<^sup>2 + h\<^sup>2) * (ux\<^sup>2 + uy\<^sup>2)"
      unfolding distance_squared_def xp yp by (simp add: power2_eq_square algebra_simps)
    moreover have "distance_squared i q = ((d / 2)\<^sup>2 + h\<^sup>2) * (ux\<^sup>2 + uy\<^sup>2)"
      unfolding distance_squared_def xq yq by (simp add: power2_eq_square algebra_simps)
    ultimately show ?thesis
      using unit h2 by simp
  qed
qed

lemma circle_intersection_complete:
  assumes "circle_intersection p q r = Inr ints"
    and "distance_squared z p = r\<^sup>2" and "distance_squared z q = r\<^sup>2"
  shows "z \<in> set ints"
proof -
  define d where "d = distance_to p q"
  define h where "h = sqrt (r\<^sup>2 - (d / 2)\<^sup>2)"
  define ux where "ux = (fst q - fst p) / d"
  define uy where "uy = (snd q - snd p) / d"
  define cx where "cx = (fst p + fst q) / 2"
  define cy where "cy = (snd p + snd q) / 2"
  define wx where "wx = fst z - cx"
  define wy where "wy = snd z - cy"
  define t where "t = wx * uy - wy * ux"
  have ok: "p \<noteq> q" "d \<le> 2 * r"
    using circle_intersection_Inr [OF assms(1)] by (simp_all add: d_def)
  have dpos: "0 < d"
    using ok(1) distance_to_nonneg [of p q] distance_to_zero_iff [of p q]
    by (simp add: d_def less_le)
  have "(d / 2)\<^sup>2 \<le> r\<^sup>2"
    using dpos ok(2) by (intro power_mono) auto
  then have h2: "h\<^sup>2 = r\<^sup>2 - (d / 2)\<^sup>2" and h0: "0 \<le> h"
    by (simp_all add: h_def)
  have d2: "d\<^sup>2 = (fst p - fst q)\<^sup>2 + (snd p - snd q)\<^sup>2"
    by (simp add: d_def distance_to_power2 distance_squared_def)
  have vx: "fst q - fst p = d * ux" and vy: "snd q - snd p = d * uy"
    using dpos by (simp_all add: ux_def uy_def)
  have unit: "ux\<^sup>2 + uy\<^sup>2 = 1"
  proof -
    have "d\<^sup>2 * (ux\<^sup>2 + uy\<^sup>2) = (d * ux)\<^sup>2 + (d * uy)\<^sup>2"
      by (simp add: power2_eq_square algebra_simps)
    also have "\<dots> = d\<^sup>2"
      unfolding vx [symmetric] vy [symmetric] d2 by (simp add: power2_commute)
    finally show ?thesis using dpos by simp
  qed
  have ints: "ints = set_add (cx - h * uy, cy + h * ux) [(cx + h * uy, cy - h * ux)]"
    using assms(1) ok dpos
    by (simp add: circle_intersection_def Let_def d_def [symmetric] h_def ux_def uy_def cx_def cy_def)
  have xp: "fst z - fst p = wx + d * ux / 2" and yp: "snd z - snd p = wy + d * uy / 2"
    and xq: "fst z - fst q = wx - d * ux / 2" and yq: "snd z - snd q = wy - d * uy / 2"
    using vx vy by (simp_all add: wx_def wy_def cx_def cy_def field_simps)
  have e1: "(wx + d * ux / 2)\<^sup>2 + (wy + d * uy / 2)\<^sup>2 = r\<^sup>2"
    using assms(2) unfolding distance_squared_def xp yp .
  have e2: "(wx - d * ux / 2)\<^sup>2 + (wy - d * uy / 2)\<^sup>2 = r\<^sup>2"
    using assms(3) unfolding distance_squared_def xq yq .
  have "2 * d * (wx * ux + wy * uy) =
      ((wx + d * ux / 2)\<^sup>2 + (wy + d * uy / 2)\<^sup>2) - ((wx - d * ux / 2)\<^sup>2 + (wy - d * uy / 2)\<^sup>2)"
    by (simp add: power2_eq_square algebra_simps)
  then have "2 * d * (wx * ux + wy * uy) = 0"
    unfolding e1 e2 by simp
  then have dot: "wx * ux + wy * uy = 0"
    using dpos by simp
  have "2 * (wx\<^sup>2 + wy\<^sup>2) + 2 * (d / 2)\<^sup>2 * (ux\<^sup>2 + uy\<^sup>2) =
      ((wx + d * ux / 2)\<^sup>2 + (wy + d * uy / 2)\<^sup>2) + ((wx - d * ux / 2)\<^sup>2 + (wy - d * uy / 2)\<^sup>2)"
    by (simp add: power2_eq_square algebra_simps)
  then have norm: "wx\<^sup>2 + wy\<^sup>2 = h\<^sup>2"
    unfolding e1 e2 unit h2 by simp
  have "t\<^sup>2 + (wx * ux + wy * uy)\<^sup>2 = (wx\<^sup>2 + wy\<^sup>2) * (ux\<^sup>2 + uy\<^sup>2)"
    by (simp add: t_def power2_eq_square algebra_simps)
  then have "t\<^sup>2 = h\<^sup>2"
    unfolding dot norm unit by simp
  then have t: "t = h \<or> t = - h"
    by (simp add: power2_eq_iff)
  have "wx = wx * (ux\<^sup>2 + uy\<^sup>2)"
    unfolding unit by simp
  also have "\<dots> = ux * (wx * ux + wy * uy) + uy * t"
    by (simp add: t_def power2_eq_square algebra_simps)
  finally have wx_t: "wx = t * uy"
    unfolding dot by simp
  have "wy = wy * (ux\<^sup>2 + uy\<^sup>2)"
    unfolding unit by simp
  also have "\<dots> = uy * (wx * ux + wy * uy) - ux * t"
    by (simp add: t_def power2_eq_square algebra_simps)
  finally have wy_t: "wy = - (t * ux)"
    unfolding dot by simp
  have z: "z = (cx + t * uy, cy - t * ux)"
    using wx_t wy_t by (simp add: wx_def wy_def prod_eq_iff)
  show ?thesis
    using t unfolding ints z by auto
qed


section \<open>The wall positions of the step ramp\<close>

lemma sqrt_nine_quarters: "sqrt (9 / 4) = 3 / 2"
  by (rule real_sqrt_unique) (simp_all add: power2_eq_square)

lemma radius_bounds: "\<not> 2 * sqrt 5 < 1" "\<not> 2 * sqrt (5 / 2) < 1"
proof -
  have "1 \<le> sqrt 5" "1 \<le> sqrt (5 / 2)"
    by simp_all
  then show "\<not> 2 * sqrt 5 < 1" "\<not> 2 * sqrt (5 / 2) < 1"
    by linarith+
qed

lemma step_ramp_circles:
  "circle_intersection (1 / 2, 1 / 2) (3 / 2, 1 / 2) (sqrt (5 / 2)) = Inr [(1, - 1), (1, 2)]"
  using radius_bounds
  by (simp add: circle_intersection_def distance_to_def distance_squared_def Let_def
      set_add_def power2_eq_square sqrt_nine_quarters)

lemma depot_in_middle_step_ramp: "depot_in_middle step_ramp = Inr (1, 2)"
  by (simp add: depot_in_middle_def upper2_step_ramp lower_step_ramp offset_def to_point2_def
      x_offset_def y_offset_def step_ramp_circles max_key_def distance_squared_def
      power2_eq_square)

lemma step_ramp_circles_barracks:
  "circle_intersection (1 / 2, 1 / 2) (3 / 2, 1 / 2) (sqrt 5) =
     Inr [(1, 1 / 2 - sqrt (19 / 4)), (1, 1 / 2 + sqrt (19 / 4))]"
  using radius_bounds
  by (simp add: circle_intersection_def distance_to_def distance_squared_def Let_def
      set_add_def power2_eq_square)

lemma barracks_in_middle_step_ramp:
  "barracks_in_middle step_ramp = Inr (1, 1 / 2 + sqrt (19 / 4))"
proof -
  have "0 < sqrt (19 / 4)" by simp
  then have "(1 / 2 - sqrt (19 / 4))\<^sup>2 < (1 / 2 + sqrt (19 / 4))\<^sup>2"
    by (simp add: power2_eq_square algebra_simps)
  then show ?thesis
    by (simp add: barracks_in_middle_def upper2_step_ramp lower_step_ramp offset_def to_point2_def
      x_offset_def y_offset_def step_ramp_circles_barracks max_key_def distance_squared_def)
qed

lemma sqrt_71_16: "sqrt (71 / 16) = sqrt 71 / 4"
  by (simp add: real_sqrt_divide)

lemma step_ramp_circles_corner:
  "circle_intersection (1, 1 / 2) (1, 2) (sqrt 5) =
     Inr [(1 + sqrt (71 / 16), 5 / 4), (1 - sqrt (71 / 16), 5 / 4)]"
proof -
  have "sqrt (9 / 4) \<le> 2 * sqrt 5"
    unfolding sqrt_nine_quarters
    by (rule order_trans [of _ "2 * sqrt 1"]) (simp, simp del: real_sqrt_one)
  then show ?thesis
  by (simp add: circle_intersection_def distance_to_def distance_squared_def Let_def
      set_add_def power2_eq_square sqrt_nine_quarters)
qed

lemma corner_depots_step_ramp:
  "corner_depots step_ramp = Inr [(1 + sqrt (71 / 16), 5 / 4), (1 - sqrt (71 / 16), 5 / 4)]"
  by (simp add: corner_depots_def upper2_step_ramp depot_in_middle_step_ramp offset_def to_point2_def
      x_offset_def y_offset_def towards_def distance_to_def distance_squared_def Let_def
      step_ramp_circles_corner)

section \<open>The wall positions in general\<close>

lemma barracks_in_middle_char:
  assumes "upper2_for_ramp_wall r = Inr [a, b]" and "barracks_in_middle r = Inr bm"
    and "p1 = offset (to_point2 a) (1 / 2, - (1 / 2))"
    and "p2 = offset (to_point2 b) (1 / 2, - (1 / 2))"
  shows "lower r \<noteq> [] \<and> distance_squared bm p1 = 5 \<and> distance_squared bm p2 = 5 \<and>
    (\<forall>z. distance_squared z p1 = 5 \<and> distance_squared z p2 = 5 \<longrightarrow>
       distance_squared z (to_point2 (hd (lower r))) \<le> distance_squared bm (to_point2 (hd (lower r))))"
proof -
  obtain ints where ints: "circle_intersection p1 p2 (sqrt 5) = Inr ints"
    using assms
    by (auto simp: barracks_in_middle_def x_offset_def y_offset_def Let_def split: sum.splits)
  obtain lp rest where lo: "lower r = lp # rest"
    using assms ints
    by (auto simp: barracks_in_middle_def x_offset_def y_offset_def Let_def split: list.splits)
  have m: "max_key (\<lambda>p. distance_squared p (to_point2 lp)) ints = Inr bm"
    using assms ints lo
    by (simp add: barracks_in_middle_def x_offset_def y_offset_def Let_def)
  have mem: "bm \<in> set ints"
    and far: "\<forall>x \<in> set ints. distance_squared x (to_point2 lp) \<le> distance_squared bm (to_point2 lp)"
    using max_key_Inr [OF m] by simp_all
  have on: "distance_squared bm p1 = 5 \<and> distance_squared bm p2 = 5"
    using circle_intersection_sound [OF ints mem] by simp
  have "\<forall>z. distance_squared z p1 = 5 \<and> distance_squared z p2 = 5 \<longrightarrow>
       distance_squared z (to_point2 lp) \<le> distance_squared bm (to_point2 lp)"
  proof (intro allI impI)
    fix z
    assume "distance_squared z p1 = 5 \<and> distance_squared z p2 = 5"
    then have "z \<in> set ints"
      using circle_intersection_complete [OF ints, of z] by simp
    then show "distance_squared z (to_point2 lp) \<le> distance_squared bm (to_point2 lp)"
      using far by blast
  qed
  then show ?thesis
    using on lo by simp
qed

lemma depot_in_middle_char:
  assumes "upper2_for_ramp_wall r = Inr [a, b]" and "depot_in_middle r = Inr dm"
    and "p1 = offset (to_point2 a) (1 / 2, - (1 / 2))"
    and "p2 = offset (to_point2 b) (1 / 2, - (1 / 2))"
  shows "lower r \<noteq> [] \<and> distance_squared dm p1 = 5 / 2 \<and> distance_squared dm p2 = 5 / 2 \<and>
    (\<forall>z. distance_squared z p1 = 5 / 2 \<and> distance_squared z p2 = 5 / 2 \<longrightarrow>
       distance_squared z (to_point2 (hd (lower r))) \<le> distance_squared dm (to_point2 (hd (lower r))))"
proof -
  obtain ints where ints: "circle_intersection p1 p2 (sqrt (5 / 2)) = Inr ints"
    using assms
    by (auto simp: depot_in_middle_def x_offset_def y_offset_def Let_def split: sum.splits)
  obtain lp rest where lo: "lower r = lp # rest"
    using assms ints
    by (auto simp: depot_in_middle_def x_offset_def y_offset_def Let_def split: list.splits)
  have m: "max_key (\<lambda>p. distance_squared p (to_point2 lp)) ints = Inr dm"
    using assms ints lo
    by (simp add: depot_in_middle_def x_offset_def y_offset_def Let_def)
  have mem: "dm \<in> set ints"
    and far: "\<forall>x \<in> set ints. distance_squared x (to_point2 lp) \<le> distance_squared dm (to_point2 lp)"
    using max_key_Inr [OF m] by simp_all
  have on: "distance_squared dm p1 = 5 / 2 \<and> distance_squared dm p2 = 5 / 2"
    using circle_intersection_sound [OF ints mem] by simp
  have "\<forall>z. distance_squared z p1 = 5 / 2 \<and> distance_squared z p2 = 5 / 2 \<longrightarrow>
       distance_squared z (to_point2 lp) \<le> distance_squared dm (to_point2 lp)"
  proof (intro allI impI)
    fix z
    assume "distance_squared z p1 = 5 / 2 \<and> distance_squared z p2 = 5 / 2"
    then have "z \<in> set ints"
      using circle_intersection_complete [OF ints, of z] by simp
    then show "distance_squared z (to_point2 lp) \<le> distance_squared dm (to_point2 lp)"
      using far by blast
  qed
  then show ?thesis
    using on lo by simp
qed

text \<open>
  C4. Let \<open>upper2_for_ramp_wall\<close> have exactly the two points \<open>a\<close> and \<open>b\<close>, and let
  \<open>p1\<close>, \<open>p2\<close> be these points shifted by \<open>(+0.5, -0.5)\<close>. A value of \<open>barracks_in_middle\<close>
  lies on both circles of radius \<open>sqrt 5\<close> around \<open>p1\<close> and \<open>p2\<close> (squared distance 5), and
  no point on both circles is farther, by squared distance, from a point of \<open>lower\<close> (the
  one the iteration yields first). \<open>depot_in_middle\<close> is the same with radius
  \<open>sqrt 2.5\<close>.
\<close>

theorem middle_positions_farthest_intersection:
  assumes "upper2_for_ramp_wall r = Inr [a, b]"
    and "p1 = offset (to_point2 a) (1 / 2, - (1 / 2))"
    and "p2 = offset (to_point2 b) (1 / 2, - (1 / 2))"
  shows "(\<forall>bm. barracks_in_middle r = Inr bm \<longrightarrow>
            (\<exists>lp \<in> set (lower r).
               distance_squared bm p1 = 5 \<and> distance_squared bm p2 = 5 \<and>
               (\<forall>z. distance_squared z p1 = 5 \<and> distance_squared z p2 = 5 \<longrightarrow>
                  distance_squared z (to_point2 lp) \<le> distance_squared bm (to_point2 lp)))) \<and>
         (\<forall>dm. depot_in_middle r = Inr dm \<longrightarrow>
            (\<exists>lp \<in> set (lower r).
               distance_squared dm p1 = 5 / 2 \<and> distance_squared dm p2 = 5 / 2 \<and>
               (\<forall>z. distance_squared z p1 = 5 / 2 \<and> distance_squared z p2 = 5 / 2 \<longrightarrow>
                  distance_squared z (to_point2 lp) \<le> distance_squared dm (to_point2 lp))))"
proof (intro conjI allI impI)
  fix bm
  assume bm: "barracks_in_middle r = Inr bm"
  have "hd (lower r) \<in> set (lower r)"
    using barracks_in_middle_char [OF assms(1) bm assms(2,3)] by simp
  then show "\<exists>lp \<in> set (lower r).
               distance_squared bm p1 = 5 \<and> distance_squared bm p2 = 5 \<and>
               (\<forall>z. distance_squared z p1 = 5 \<and> distance_squared z p2 = 5 \<longrightarrow>
                  distance_squared z (to_point2 lp) \<le> distance_squared bm (to_point2 lp))"
    using barracks_in_middle_char [OF assms(1) bm assms(2,3)] by blast
next
  fix dm
  assume dm: "depot_in_middle r = Inr dm"
  have "hd (lower r) \<in> set (lower r)"
    using depot_in_middle_char [OF assms(1) dm assms(2,3)] by simp
  then show "\<exists>lp \<in> set (lower r).
               distance_squared dm p1 = 5 / 2 \<and> distance_squared dm p2 = 5 / 2 \<and>
               (\<forall>z. distance_squared z p1 = 5 / 2 \<and> distance_squared z p2 = 5 / 2 \<longrightarrow>
                  distance_squared z (to_point2 lp) \<le> distance_squared dm (to_point2 lp))"
    using depot_in_middle_char [OF assms(1) dm assms(2,3)] by blast
qed

theorem middle_positions_farthest_intersection_witness:
  "upper2_for_ramp_wall step_ramp = Inr [(0, 1), (1, 1)] \<and>
   barracks_in_middle step_ramp = Inr (1, 1 / 2 + sqrt (19 / 4)) \<and>
   depot_in_middle step_ramp = Inr (1, 2) \<and>
   (\<exists>lp \<in> set (lower step_ramp).
      distance_squared (1, 1 / 2 + sqrt (19 / 4)) (1 / 2, 1 / 2) = 5 \<and>
      distance_squared (1, 1 / 2 + sqrt (19 / 4)) (3 / 2, 1 / 2) = 5 \<and>
      distance_squared (1, - 1) (to_point2 lp) \<le> distance_squared (1, 2) (to_point2 lp))"
proof -
  have p1: "(1 / 2, 1 / 2) = offset (to_point2 (0, 1)) (1 / 2, - (1 / 2))"
    and p2: "(3 / 2, 1 / 2) = offset (to_point2 (1, 1)) (1 / 2, - (1 / 2))"
    by (simp_all add: offset_def to_point2_def)
  note th = middle_positions_farthest_intersection [OF upper2_step_ramp p1 p2]
  obtain lp where lp: "lp \<in> set (lower step_ramp)"
      "distance_squared (1, 1 / 2 + sqrt (19 / 4)) (1 / 2, 1 / 2) = 5"
      "distance_squared (1, 1 / 2 + sqrt (19 / 4)) (3 / 2, 1 / 2) = 5"
    using th barracks_in_middle_step_ramp by blast
  obtain lp' where lp': "lp' \<in> set (lower step_ramp)"
      "\<forall>z. distance_squared z (1 / 2, 1 / 2) = 5 / 2 \<and> distance_squared z (3 / 2, 1 / 2) = 5 / 2 \<longrightarrow>
         distance_squared z (to_point2 lp') \<le> distance_squared (1, 2) (to_point2 lp')"
    using th depot_in_middle_step_ramp by blast
  have "distance_squared (1, - 1) (1 / 2, 1 / 2) = 5 / 2 \<and> distance_squared (1, - 1) (3 / 2, 1 / 2) = 5 / 2"
    by (simp add: distance_squared_def power2_eq_square)
  then have "distance_squared (1, - 1) (to_point2 lp') \<le> distance_squared (1, 2) (to_point2 lp')"
    using lp'(2) by blast
  then show ?thesis
    using upper2_step_ramp barracks_in_middle_step_ramp depot_in_middle_step_ramp lp lp'(1)
    by blast
qed


text \<open>
  C7. Let \<open>upper2_for_ramp_wall\<close> have exactly two points and let \<open>barracks_in_middle\<close> and
  \<open>corner_depots\<close> have the values \<open>bm\<close> and \<open>cds\<close>. Then \<open>barracks_can_fit_addon\<close> is
  true exactly if the x coordinate of \<open>bm\<close> plus one exceeds the largest x coordinate
  among \<open>cds\<close>, and \<open>barracks_correct_placement\<close> is \<open>bm\<close> if the add-on fits and \<open>bm\<close>
  shifted by \<open>(-2, 0)\<close> otherwise.
\<close>

theorem addon_fit_and_placement:
  assumes "upper2_for_ramp_wall r = Inr u" and "length u = 2"
    and "barracks_in_middle r = Inr bm" and "corner_depots r = Inr cds"
  shows "barracks_can_fit_addon r = Inr (fst bm + 1 > Max (fst ` set cds)) \<and>
         barracks_correct_placement r =
           Inr (if fst bm + 1 > Max (fst ` set cds) then bm else (fst bm - 2, snd bm))"
proof -
  obtain a b where u: "u = [a, b]"
    using assms(2) by (auto simp: length_Suc_conv numeral_2_eq_2)
  have "cds \<noteq> []"
    using assms(1,4) circle_intersection_Inr unfolding u
    by (fastforce simp: corner_depots_def Let_def split: sum.splits)
  then obtain m where m: "max_key fst cds = Inr m"
    using max_key_nonempty by blast
  have mx: "fst m = Max (fst ` set cds)"
    by (rule max_key_Max [OF m])
  have fit: "barracks_can_fit_addon r = Inr (fst bm + 1 > Max (fst ` set cds))"
    using assms(1,3,4) m mx unfolding u by (simp add: barracks_can_fit_addon_def)
  have "barracks_correct_placement r =
           Inr (if fst bm + 1 > Max (fst ` set cds) then bm else (fst bm - 2, snd bm))"
    using assms(1,3) fit unfolding u
    by (simp add: barracks_correct_placement_def offset_def)
  then show ?thesis
    using fit by simp
qed

theorem addon_fit_and_placement_witness:
  "upper2_for_ramp_wall step_ramp = Inr [(0, 1), (1, 1)] \<and>
   barracks_in_middle step_ramp = Inr (1, 1 / 2 + sqrt (19 / 4)) \<and>
   corner_depots step_ramp = Inr [(1 + sqrt (71 / 16), 5 / 4), (1 - sqrt (71 / 16), 5 / 4)] \<and>
   barracks_can_fit_addon step_ramp = Inr False \<and>
   barracks_correct_placement step_ramp = Inr (- 1, 1 / 2 + sqrt (19 / 4))"
proof -
  have len: "length [(0, 1), (1, 1) :: point] = 2"
    by simp
  have "1 \<le> sqrt (71 / 16)"
    by simp
  then have mx: "\<not> (2 :: real) > Max {1 + sqrt (71 / 16), 1 - sqrt (71 / 16)}"
    by simp
  show ?thesis
    using addon_fit_and_placement [OF upper2_step_ramp len barracks_in_middle_step_ramp
        corner_depots_step_ramp] mx
    by (simp add: upper2_step_ramp barracks_in_middle_step_ramp corner_depots_step_ramp)
qed


section \<open>A ramp top of two adjacent cells\<close>

lemma offset_distance_squared:
  "distance_squared (offset p v) (offset q v) = distance_squared p q"
  by (simp add: distance_squared_def offset_def)

lemma distance_squared_commute: "distance_squared p q = distance_squared q p"
  by (simp add: distance_squared_def power2_commute)

lemma barracks_in_middle_defined:
  assumes "upper2_for_ramp_wall r = Inr [a, b]" and "lower r \<noteq> []"
    and "distance_squared (to_point2 a) (to_point2 b) = 1"
  shows "\<exists>bm. barracks_in_middle r = Inr bm"
proof -
  define p1 where "p1 = offset (to_point2 a) (x_offset, y_offset)"
  define p2 where "p2 = offset (to_point2 b) (x_offset, y_offset)"
  have d: "distance_to p1 p2 = 1"
    by (simp add: distance_to_def p1_def p2_def offset_distance_squared assms(3))
  then have "p1 \<noteq> p2"
    using distance_to_zero_iff [of p1 p2] by auto
  moreover have "1 \<le> sqrt 5"
    by simp
  then have "distance_to p1 p2 \<le> 2 * sqrt 5"
    unfolding d by linarith
  ultimately obtain ints where ints: "circle_intersection p1 p2 (sqrt 5) = Inr ints" "ints \<noteq> []"
    using circle_intersection_defined by blast
  obtain lp rest where lo: "lower r = lp # rest"
    using assms(2) by (cases "lower r") auto
  obtain bm where "max_key (\<lambda>p. distance_squared p (to_point2 lp)) ints = Inr bm"
    using max_key_nonempty [OF ints(2)] by blast
  then have "barracks_in_middle r = Inr bm"
    using assms(1) ints(1) lo
    by (simp add: barracks_in_middle_def p1_def [symmetric] p2_def [symmetric])
  then show ?thesis ..
qed

lemma depot_in_middle_defined:
  assumes "upper2_for_ramp_wall r = Inr [a, b]" and "lower r \<noteq> []"
    and "distance_squared (to_point2 a) (to_point2 b) = 1"
  shows "\<exists>dm. depot_in_middle r = Inr dm"
proof -
  define p1 where "p1 = offset (to_point2 a) (x_offset, y_offset)"
  define p2 where "p2 = offset (to_point2 b) (x_offset, y_offset)"
  have d: "distance_to p1 p2 = 1"
    by (simp add: distance_to_def p1_def p2_def offset_distance_squared assms(3))
  then have "p1 \<noteq> p2"
    using distance_to_zero_iff [of p1 p2] by auto
  moreover have "1 \<le> sqrt (5 / 2)"
    by simp
  then have "distance_to p1 p2 \<le> 2 * sqrt (5 / 2)"
    unfolding d by linarith
  ultimately obtain ints where ints: "circle_intersection p1 p2 (sqrt (5 / 2)) = Inr ints" "ints \<noteq> []"
    using circle_intersection_defined by blast
  obtain lp rest where lo: "lower r = lp # rest"
    using assms(2) by (cases "lower r") auto
  obtain dm where "max_key (\<lambda>p. distance_squared p (to_point2 lp)) ints = Inr dm"
    using max_key_nonempty [OF ints(2)] by blast
  then have "depot_in_middle r = Inr dm"
    using assms(1) ints(1) lo
    by (simp add: depot_in_middle_def p1_def [symmetric] p2_def [symmetric])
  then show ?thesis ..
qed

lemma upper2_of_pair:
  assumes "upper r = [a, b]" and "lower r \<noteq> []"
  shows "upper2_for_ramp_wall r = Inr [a, b] \<or> upper2_for_ramp_wall r = Inr [b, a]"
proof -
  obtain bc where bc: "bottom_center r = Inr bc"
    using bottom_center_defined [OF assms(2)] by blast
  have "length (upper r) \<le> 5"
    by (simp add: assms(1))
  then show ?thesis
    by (simp add: upper2_some [OF _ bc] assms(1))
qed

text \<open>
  C5 (as amended). Let \<open>upper\<close> have exactly two points, at distance 1 of each other, on a
  ramp whose heights lie within the starting values of the two passes. Then
  \<open>upper2_for_ramp_wall\<close> is \<open>upper\<close> itself, and \<open>barracks_in_middle\<close> and
  \<open>depot_in_middle\<close> both have a value: the point on the two circles (of radius \<open>sqrt 5\<close>,
  respectively \<open>sqrt 2.5\<close>, around the two shifted upper points) that is at least as far
  from the first point of \<open>lower\<close> as the other intersection point is.
\<close>

theorem two_tile_ramp_top:
  assumes "upper r = [a, b]"
    and "distance_squared (to_point2 a) (to_point2 b) = 1"
    and "heights_in_range r"
    and "p1 = offset (to_point2 a) (1 / 2, - (1 / 2))"
    and "p2 = offset (to_point2 b) (1 / 2, - (1 / 2))"
  shows "\<exists>u bm dm lp.
    upper2_for_ramp_wall r = Inr u \<and> set u = set (upper r) \<and>
    lp \<in> set (lower r) \<and>
    barracks_in_middle r = Inr bm \<and>
    distance_squared bm p1 = 5 \<and> distance_squared bm p2 = 5 \<and>
    (\<forall>z. distance_squared z p1 = 5 \<and> distance_squared z p2 = 5 \<longrightarrow>
       distance_squared z (to_point2 lp) \<le> distance_squared bm (to_point2 lp)) \<and>
    depot_in_middle r = Inr dm \<and>
    distance_squared dm p1 = 5 / 2 \<and> distance_squared dm p2 = 5 / 2 \<and>
    (\<forall>z. distance_squared z p1 = 5 / 2 \<and> distance_squared z p2 = 5 / 2 \<longrightarrow>
       distance_squared z (to_point2 lp) \<le> distance_squared dm (to_point2 lp))"
proof -
  have "upper r \<noteq> []"
    by (simp add: assms(1))
  then have lo: "lower r \<noteq> []"
    using lower_nonempty [OF assms(3)] upper_points_nonempty by blast
  have lp: "hd (lower r) \<in> set (lower r)"
    using lo by simp
  have ba: "distance_squared (to_point2 b) (to_point2 a) = 1"
    using assms(2) by (simp add: distance_squared_commute)
  consider "upper2_for_ramp_wall r = Inr [a, b]" | "upper2_for_ramp_wall r = Inr [b, a]"
    using upper2_of_pair [OF assms(1) lo] by blast
  then show ?thesis
  proof cases
    case 1
    obtain bm where bm: "barracks_in_middle r = Inr bm"
      using barracks_in_middle_defined [OF 1 lo assms(2)] by blast
    obtain dm where dm: "depot_in_middle r = Inr dm"
      using depot_in_middle_defined [OF 1 lo assms(2)] by blast
    have "set [a, b] = set (upper r)"
      by (simp add: assms(1))
    then show ?thesis
      using 1 lp bm dm barracks_in_middle_char [OF 1 bm assms(4,5)]
        depot_in_middle_char [OF 1 dm assms(4,5)]
      by blast
  next
    case 2
    obtain bm where bm: "barracks_in_middle r = Inr bm"
      using barracks_in_middle_defined [OF 2 lo ba] by blast
    obtain dm where dm: "depot_in_middle r = Inr dm"
      using depot_in_middle_defined [OF 2 lo ba] by blast
    have "set [b, a] = set (upper r)"
      by (auto simp: assms(1))
    then show ?thesis
      using 2 lp bm dm barracks_in_middle_char [OF 2 bm assms(5,4)]
        depot_in_middle_char [OF 2 dm assms(5,4)]
      by blast
  qed
qed

theorem two_tile_ramp_top_witness:
  "upper step_ramp = [(0, 1), (1, 1)] \<and>
   distance_squared (to_point2 (0, 1)) (to_point2 (1, 1)) = 1 \<and>
   heights_in_range step_ramp \<and>
   (\<exists>u bm dm. upper2_for_ramp_wall step_ramp = Inr u \<and> set u = {(0, 1), (1, 1)} \<and>
      barracks_in_middle step_ramp = Inr bm \<and> distance_squared bm (1 / 2, 1 / 2) = 5 \<and>
      depot_in_middle step_ramp = Inr dm \<and> distance_squared dm (1 / 2, 1 / 2) = 5 / 2)"
proof -
  have d: "distance_squared (to_point2 (0, 1)) (to_point2 (1, 1)) = 1"
    by (simp add: distance_squared_def to_point2_def)
  have p1: "(1 / 2, 1 / 2) = offset (to_point2 (0, 1)) (1 / 2, - (1 / 2))"
    and p2: "(3 / 2, 1 / 2) = offset (to_point2 (1, 1)) (1 / 2, - (1 / 2))"
    by (simp_all add: offset_def to_point2_def)
  have "\<exists>u bm dm. upper2_for_ramp_wall step_ramp = Inr u \<and> set u = {(0, 1), (1, 1)} \<and>
      barracks_in_middle step_ramp = Inr bm \<and> distance_squared bm (1 / 2, 1 / 2) = 5 \<and>
      depot_in_middle step_ramp = Inr dm \<and> distance_squared dm (1 / 2, 1 / 2) = 5 / 2"
    using two_tile_ramp_top [OF upper_step_ramp d heights_in_range_step_ramp p1 p2]
    by (simp add: upper_step_ramp) blast
  then show ?thesis
    using upper_step_ramp d heights_in_range_step_ramp by blast
qed

text \<open>
  The claim as written fails on the step ramp, whose two upper points are side by side at
  height 1 above two points at height 0: the top centre is \<open>(0.5, 1)\<close>, the bottom centre
  \<open>(0.5, 0)\<close>, and \<open>depot_in_middle\<close> and \<open>barracks_in_middle\<close> lie at \<open>y = 2\<close> and above,
  beyond the top on the side away from the bottom, and farther from the bottom centre
  than the top centre is: of the two intersection points the one farther from the lower
  point is taken.
\<close>

theorem two_tile_ramp_top_counterexample:
  "heights_in_range step_ramp \<and>
   upper step_ramp = [(0, 1), (1, 1)] \<and>
   height_at step_ramp (0, 1) = height_at step_ramp (1, 1) \<and>
   distance_squared (to_point2 (0, 1)) (to_point2 (1, 1)) = 1 \<and>
   top_center step_ramp = Inr (1 / 2, 1) \<and>
   bottom_center step_ramp = Inr (1 / 2, 0) \<and>
   depot_in_middle step_ramp = Inr (1, 2) \<and>
   \<not> strictly_between (1 / 2, 1) (1 / 2, 0) (1, 2) \<and>
   distance_squared (1 / 2, 1) (1 / 2, 0) < distance_squared (1, 2) (1 / 2, 0) \<and>
   barracks_in_middle step_ramp = Inr (1, 1 / 2 + sqrt (19 / 4)) \<and>
   \<not> strictly_between (1 / 2, 1) (1 / 2, 0) (1, 1 / 2 + sqrt (19 / 4))"
proof -
  have d: "distance_squared (to_point2 (0, 1)) (to_point2 (1, 1)) = 1"
    by (simp add: distance_squared_def to_point2_def)
  have hh: "height_at step_ramp (0, 1) = height_at step_ramp (1, 1)"
    by (simp add: step_ramp_def height_at_def)
  have nb: "\<not> strictly_between (1 / 2, 1) (1 / 2, 0) (1, 2)"
    by (simp add: strictly_between_def)
  have far: "distance_squared (1 / 2, 1) (1 / 2, 0) < distance_squared (1, 2) (1 / 2, 0)"
    by (simp add: distance_squared_def power2_eq_square)
  have "1 \<le> sqrt (19 / 4)"
    by simp
  then have "\<not> sqrt (19 / 4) * 2 < 1"
    by linarith
  then have nb': "\<not> strictly_between (1 / 2, 1) (1 / 2, 0) (1, 1 / 2 + sqrt (19 / 4))"
    by (simp add: strictly_between_def)
  show ?thesis
    using heights_in_range_step_ramp upper_step_ramp hh d top_center_step_ramp
      bottom_center_step_ramp depot_in_middle_step_ramp nb far barracks_in_middle_step_ramp nb'
    by (intro conjI)
qed


section \<open>Region grouping: the flood fill of GameInfo._find_groups\<close>

text \<open>
  The label array \<open>picture\<close> is a list of \<open>map_height\<close> rows of \<open>map_width\<close> labels, read
  and written as \<open>picture[y][x]\<close>. A Python list index \<open>i\<close> on a list of length \<open>n\<close>
  addresses position \<open>i\<close> for \<open>0 \<le> i < n\<close>, position \<open>n + i\<close> for \<open>-n \<le> i < 0\<close>, and
  raises \<open>IndexError\<close> otherwise.
\<close>

definition NOT_INTERESTED :: int where
  "NOT_INTERESTED = - 2"

definition NOT_COLORED_YET :: int where
  "NOT_COLORED_YET = - 1"

definition py_index :: "nat \<Rightarrow> int \<Rightarrow> nat option" where
  "py_index n i =
     (if 0 \<le> i \<and> i < int n then Some (nat i)
      else if - int n \<le> i \<and> i < 0 then Some (nat (int n + i))
      else None)"

text \<open>\<open>paint(pt)\<close>, with the colour that \<open>currentColor\<close> holds at the call.\<close>

definition paint :: "int list list \<Rightarrow> int \<Rightarrow> point \<Rightarrow> error + int list list" where
  "paint picture currentColor pt =
     (case py_index (length picture) (snd pt) of
        None \<Rightarrow> Inl IndexError
      | Some j \<Rightarrow>
          (case py_index (length (picture ! j)) (fst pt) of
             None \<Rightarrow> Inl IndexError
           | Some i \<Rightarrow> Inr (picture[j := (picture ! j)[i := currentColor]])))"

text \<open>The read \<open>picture[py][px]\<close>.\<close>

definition label_at :: "int list list \<Rightarrow> int \<Rightarrow> int \<Rightarrow> error + int" where
  "label_at picture py px =
     (case py_index (length picture) py of
        None \<Rightarrow> Inl IndexError
      | Some j \<Rightarrow>
          (case py_index (length (picture ! j)) px of
             None \<Rightarrow> Inl IndexError
           | Some i \<Rightarrow> Inr (picture ! j ! i)))"

text \<open>\<open>for point in points: paint(point)\<close>\<close>

fun paint_all :: "int list list \<Rightarrow> int \<Rightarrow> point list \<Rightarrow> error + int list list" where
  "paint_all picture currentColor [] = Inr picture"
| "paint_all picture currentColor (pt # pts) =
     (case paint picture currentColor pt of
        Inl e \<Rightarrow> Inl e
      | Inr picture' \<Rightarrow> paint_all picture' currentColor pts)"

text \<open>
  The neighbour offsets: all \<open>(dx, dy)\<close> with \<open>dx\<close> and \<open>dy\<close> in
  \<open>range(-max_distance_between_points, max_distance_between_points + 1)\<close> and
  \<open>|dx| + |dy| \<le> max_distance_between_points\<close>.
\<close>

definition nearby :: "int \<Rightarrow> point list" where
  "nearby max_distance_between_points =
     [(dx, dy).
        dx \<leftarrow> [- max_distance_between_points .. max_distance_between_points],
        dy \<leftarrow> [- max_distance_between_points .. max_distance_between_points],
        \<bar>dx\<bar> + \<bar>dy\<bar> \<le> max_distance_between_points]"

text \<open>
  The variables the two loops share. \<open>remaining\<close> and \<open>currentGroup\<close> are sets, \<open>queue\<close>
  is the deque, appended on the right and popped on the left.
\<close>

record flood =
  picture :: "int list list"
  remaining :: "point list"
  queue :: "point list"
  currentGroup :: "point list"

text \<open>The body of \<open>for offset in nearby\<close>, for the cell \<open>base\<close> taken from the queue.\<close>

definition visit :: "int \<Rightarrow> int \<Rightarrow> int \<Rightarrow> point \<Rightarrow> flood \<Rightarrow> point \<Rightarrow> error + flood" where
  "visit map_width map_height currentColor base st delta =
     (let px = fst base + fst delta; py = snd base + snd delta in
      if px < 0 \<or> py < 0 \<or> px \<ge> map_width \<or> py \<ge> map_height then Inr st
      else
        case label_at (picture st) py px of
          Inl e \<Rightarrow> Inl e
        | Inr label \<Rightarrow>
            if label \<noteq> NOT_COLORED_YET then Inr st
            else
              let point = (px, py) in
              if point \<notin> set (remaining st) then Inl KeyError
              else
                case paint (picture st) currentColor point of
                  Inl e \<Rightarrow> Inl e
                | Inr picture' \<Rightarrow>
                    Inr (st\<lparr>picture := picture',
                            remaining := remove1 point (remaining st),
                            queue := queue st @ [point],
                            currentGroup := set_add point (currentGroup st)\<rparr>))"

fun for_nearby :: "int \<Rightarrow> int \<Rightarrow> int \<Rightarrow> point \<Rightarrow> point list \<Rightarrow> flood \<Rightarrow> error + flood" where
  "for_nearby map_width map_height currentColor base [] st = Inr st"
| "for_nearby map_width map_height currentColor base (delta # offsets) st =
     (case visit map_width map_height currentColor base st delta of
        Inl e \<Rightarrow> Inl e
      | Inr st' \<Rightarrow> for_nearby map_width map_height currentColor base offsets st')"

lemma visit_measure:
  "visit w h c base st off = Inr st' \<Longrightarrow>
   length (remaining st') + length (queue st') = length (remaining st) + length (queue st)"
  by (auto simp: visit_def Let_def length_remove1 split: if_splits sum.splits)
     (metis One_nat_def Suc_pred length_pos_if_in_set)

lemma for_nearby_measure:
  "for_nearby w h c base offs st = Inr st' \<Longrightarrow>
   length (remaining st') + length (queue st') = length (remaining st) + length (queue st)"
proof (induction offs arbitrary: st)
  case Nil
  then show ?case by simp
next
  case (Cons off offs)
  then show ?case
    by (auto split: sum.splits dest!: visit_measure)
qed

text \<open>\<open>while queue: base = queue.popleft(); for offset in nearby: ...\<close>\<close>

function while_queue :: "int \<Rightarrow> int \<Rightarrow> int \<Rightarrow> point list \<Rightarrow> flood \<Rightarrow> error + flood" where
  "while_queue map_width map_height currentColor offsets st =
     (case queue st of
        [] \<Rightarrow> Inr st
      | base # rest \<Rightarrow>
          (case for_nearby map_width map_height currentColor base offsets (st\<lparr>queue := rest\<rparr>) of
             Inl e \<Rightarrow> Inl e
           | Inr st' \<Rightarrow> while_queue map_width map_height currentColor offsets st'))"
  by pat_completeness auto
termination
proof (relation "measure (\<lambda>(w, h, c, offs, st). length (remaining st) + length (queue st))")
  show "wf (measure (\<lambda>(w, h, c, offs, st). length (remaining st) + length (queue st)))"
    by simp
next
  fix w h c :: int and offs :: "point list" and st :: flood and base rest st'
  assume q: "queue st = base # rest"
    and f: "for_nearby w h c base offs (st\<lparr>queue := rest\<rparr>) = Inr st'"
  show "((w, h, c, offs, st'), (w, h, c, offs, st))
      \<in> measure (\<lambda>(w, h, c, offs, st). length (remaining st) + length (queue st))"
    using for_nearby_measure [OF f] q by simp
qed

lemma while_queue_measure:
  "while_queue w h c offs st = Inr st' \<Longrightarrow>
   queue st' = [] \<and>
   length (remaining st') + length (queue st') \<le> length (remaining st) + length (queue st) \<and>
   (queue st \<noteq> [] \<longrightarrow>
      length (remaining st') + length (queue st') < length (remaining st) + length (queue st))"
proof (induction w h c offs st rule: while_queue.induct)
  case (1 w h c offs st)
  show ?case
  proof (cases "queue st")
    case Nil
    then show ?thesis using "1.prems" by simp
  next
    case (Cons base rest)
    then obtain st1 where f: "for_nearby w h c base offs (st\<lparr>queue := rest\<rparr>) = Inr st1"
      and w: "while_queue w h c offs st1 = Inr st'"
      using "1.prems" by (auto split: sum.splits)
    have "length (remaining st1) + length (queue st1) = length (remaining st) + length rest"
      using for_nearby_measure [OF f] by simp
    then show ?thesis
      using "1.IH" [OF Cons f w] Cons by simp
  qed
qed

text \<open>
  The head of the outer loop body: \<open>if not queue: currentColor += 1; start =
  remaining.pop(); paint(start); queue.append(start); currentGroup.add(start)\<close>.
  \<open>remaining.pop()\<close> takes the first element in iteration order and raises \<open>KeyError\<close> on
  an empty set.
\<close>

definition start_group :: "int \<Rightarrow> flood \<Rightarrow> error + int \<times> flood" where
  "start_group currentColor st =
     (if queue st = [] then
        (case remaining st of
           [] \<Rightarrow> Inl KeyError
         | start # rest \<Rightarrow>
             (case paint (picture st) (currentColor + 1) start of
                Inl e \<Rightarrow> Inl e
              | Inr picture' \<Rightarrow>
                  Inr (currentColor + 1,
                       st\<lparr>picture := picture',
                          remaining := rest,
                          queue := queue st @ [start],
                          currentGroup := set_add start (currentGroup st)\<rparr>)))
      else Inr (currentColor, st))"

lemma start_group_measure:
  "start_group c st = Inr (c', st') \<Longrightarrow>
   queue st' \<noteq> [] \<and>
   length (remaining st') + length (queue st') = length (remaining st) + length (queue st)"
  by (auto simp: start_group_def split: if_splits list.splits sum.splits)

text \<open>\<open>while remaining: currentGroup = set(); ...\<close>, the outer loop.\<close>

function while_remaining ::
  "int \<Rightarrow> int \<Rightarrow> int \<Rightarrow> point list \<Rightarrow> int \<Rightarrow> flood \<Rightarrow> point list list \<Rightarrow> error + point list list" where
  "while_remaining map_width map_height minimum_points_per_group offsets currentColor st foundGroups =
     (if remaining st = [] then Inr foundGroups
      else
        case start_group currentColor (st\<lparr>currentGroup := []\<rparr>) of
          Inl e \<Rightarrow> Inl e
        | Inr (currentColor', st1) \<Rightarrow>
            (case while_queue map_width map_height currentColor' offsets st1 of
               Inl e \<Rightarrow> Inl e
             | Inr st2 \<Rightarrow>
                 while_remaining map_width map_height minimum_points_per_group offsets currentColor' st2
                   (if int (length (currentGroup st2)) \<ge> minimum_points_per_group
                    then foundGroups @ [currentGroup st2] else foundGroups)))"
  by pat_completeness auto
termination
proof (relation "measure (\<lambda>(w, h, m, offs, c, st, found). length (remaining st) + length (queue st))")
  show "wf (measure (\<lambda>(w, h, m, offs, c, st, found :: point list list).
      length (remaining st) + length (queue st)))"
    by simp
next
  fix w h m :: int and offs :: "point list" and c :: int and st :: flood
    and found :: "point list list" and x c' st1 st2
  assume s: "start_group c (st\<lparr>currentGroup := []\<rparr>) = Inr x" and x: "(c', st1) = x"
    and q: "while_queue w h c' offs st1 = Inr st2"
  have s': "start_group c (st\<lparr>currentGroup := []\<rparr>) = Inr (c', st1)"
    using s x by simp
  show "((w, h, m, offs, c', st2,
        if m \<le> int (length (currentGroup st2)) then found @ [currentGroup st2] else found),
       (w, h, m, offs, c, st, found))
      \<in> measure (\<lambda>(w, h, m, offs, c, st, found). length (remaining st) + length (queue st))"
    using start_group_measure [OF s'] while_queue_measure [OF q] by simp
qed

text \<open>
  \<open>GameInfo._find_groups\<close>. \<open>map_width\<close> and \<open>map_height\<close> are the dimensions of the
  pathing grid; \<open>points\<close> is the argument set in an iteration order. The set
  \<open>remaining = set(points)\<close> is taken in the same order: the loop that paints the points
  does not depend on the order, so the model covers every order of \<open>remaining\<close>. As
  \<open>remaining\<close> only loses elements, \<open>remaining.pop()\<close> returns the first element in
  iteration order each time, and the removal of an element leaves the order of the others
  as it is.
\<close>

definition find_groups ::
  "int \<Rightarrow> int \<Rightarrow> point list \<Rightarrow> int \<Rightarrow> int \<Rightarrow> error + point list list" where
  "find_groups map_width map_height points minimum_points_per_group max_distance_between_points =
     (let picture0 = replicate (nat map_height) (replicate (nat map_width) NOT_INTERESTED);
          offsets = nearby max_distance_between_points
      in case paint_all picture0 NOT_COLORED_YET points of
           Inl e \<Rightarrow> Inl e
         | Inr picture1 \<Rightarrow>
             while_remaining map_width map_height minimum_points_per_group offsets NOT_COLORED_YET
               \<lparr>picture = picture1, remaining = remdups points, queue = [], currentGroup = []\<rparr> [])"

section \<open>Dilated adjacency and clusters\<close>

text \<open>
  Two cells are neighbours under the dilated adjacency if their Manhattan distance is at
  most \<open>max_distance_between_points\<close>. A hop within a point set \<open>S\<close> joins two neighbours
  that both belong to \<open>S\<close>; a cluster of \<open>S\<close> is a maximal connected component: a
  non-empty subset any two points of which are joined by hops within it, and which no hop
  within \<open>S\<close> leaves.
\<close>

definition in_bounds :: "int \<Rightarrow> int \<Rightarrow> point \<Rightarrow> bool" where
  "in_bounds map_width map_height p \<longleftrightarrow>
     0 \<le> fst p \<and> fst p < map_width \<and> 0 \<le> snd p \<and> snd p < map_height"

definition adjacent :: "int \<Rightarrow> point \<Rightarrow> point \<Rightarrow> bool" where
  "adjacent m p q \<longleftrightarrow> \<bar>fst p - fst q\<bar> + \<bar>snd p - snd q\<bar> \<le> m"

definition hops :: "int \<Rightarrow> point set \<Rightarrow> (point \<times> point) set" where
  "hops m S = {(p, q). p \<in> S \<and> q \<in> S \<and> adjacent m p q}"

definition cluster :: "int \<Rightarrow> point set \<Rightarrow> point set \<Rightarrow> bool" where
  "cluster m S K \<longleftrightarrow>
     K \<noteq> {} \<and> K \<subseteq> S \<and>
     (\<forall>p \<in> K. \<forall>q \<in> K. (p, q) \<in> (hops m K)\<^sup>*) \<and>
     (\<forall>p \<in> K. \<forall>q \<in> S - K. \<not> adjacent m p q)"

section \<open>The label array\<close>

definition cell :: "int list list \<Rightarrow> point \<Rightarrow> int" where
  "cell pic p = pic ! nat (snd p) ! nat (fst p)"

definition shape :: "int \<Rightarrow> int \<Rightarrow> int list list \<Rightarrow> bool" where
  "shape w h pic \<longleftrightarrow> length pic = nat h \<and> (\<forall>row \<in> set pic. length row = nat w)"

lemma py_index_in_range: "0 \<le> i \<Longrightarrow> i < int n \<Longrightarrow> py_index n i = Some (nat i)"
  by (simp add: py_index_def)

lemma shape_row: "shape w h pic \<Longrightarrow> 0 \<le> y \<Longrightarrow> y < h \<Longrightarrow> length (pic ! nat y) = nat w"
  by (simp add: shape_def)

lemma label_at_in_bounds:
  assumes "shape w h pic" and "in_bounds w h (px, py)"
  shows "label_at pic py px = Inr (cell pic (px, py))"
proof -
  have y: "0 \<le> py" "py < int (length pic)" and x: "0 \<le> px" "px < w"
    using assms by (auto simp: shape_def in_bounds_def)
  have "length (pic ! nat py) = nat w"
    using assms by (auto simp: in_bounds_def intro: shape_row)
  then have x': "px < int (length (pic ! nat py))"
    using x by simp
  show ?thesis
    by (simp add: label_at_def py_index_in_range [OF y] py_index_in_range [OF x(1) x'] cell_def)
qed

lemma paint_in_bounds:
  assumes "shape w h pic" and "in_bounds w h p"
  shows "\<exists>pic'. paint pic c p = Inr pic' \<and> shape w h pic' \<and>
    (\<forall>q. in_bounds w h q \<longrightarrow> cell pic' q = (if q = p then c else cell pic q))"
proof -
  obtain px py where p: "p = (px, py)"
    by (cases p)
  have y: "0 \<le> py" "py < int (length pic)" and x: "0 \<le> px" "px < w" and yh: "py < h"
    using assms by (auto simp: shape_def in_bounds_def p)
  have len: "length (pic ! nat py) = nat w"
    using assms(1) y(1) yh by (rule shape_row)
  then have x': "px < int (length (pic ! nat py))"
    using x by simp
  define pic' where "pic' = pic[nat py := (pic ! nat py)[nat px := c]]"
  have res: "paint pic c p = Inr pic'"
    by (simp add: paint_def p py_index_in_range [OF y] py_index_in_range [OF x(1) x'] pic'_def)
  have sh: "shape w h pic'"
    using assms(1) len unfolding shape_def pic'_def
    by (auto dest!: set_update_subset_insert [THEN subsetD])
  have "cell pic' q = (if q = p then c else cell pic q)" if "in_bounds w h q" for q
  proof -
    obtain qx qy where q: "q = (qx, qy)"
      by (cases q)
    have qb: "0 \<le> qy" "qy < int (length pic)" "0 \<le> qx" "qx < w"
      using that assms(1) by (auto simp: shape_def in_bounds_def q)
    show ?thesis
    proof (cases "qy = py")
      case True
      have "nat qx < length (pic ! nat py)"
        using len qb by simp
      then show ?thesis
        using True y qb x
        by (auto simp: cell_def pic'_def q p nth_list_update)
    next
      case False
      then have "nat qy \<noteq> nat py"
        using qb y by simp
      then show ?thesis
        using False by (simp add: cell_def pic'_def q p)
    qed
  qed
  then show ?thesis
    using res sh by blast
qed

lemma paint_all_in_bounds:
  assumes "shape w h pic" and "\<forall>p \<in> set pts. in_bounds w h p"
  shows "\<exists>pic'. paint_all pic c pts = Inr pic' \<and> shape w h pic' \<and>
    (\<forall>q. in_bounds w h q \<longrightarrow> cell pic' q = (if q \<in> set pts then c else cell pic q))"
  using assms
proof (induction pts arbitrary: pic)
  case Nil
  then show ?case by simp
next
  case (Cons p pts)
  obtain pic1 where p1: "paint pic c p = Inr pic1" "shape w h pic1"
    "\<forall>q. in_bounds w h q \<longrightarrow> cell pic1 q = (if q = p then c else cell pic q)"
    using paint_in_bounds [of w h pic p c] Cons.prems by auto
  obtain pic' where p2: "paint_all pic1 c pts = Inr pic'" "shape w h pic'"
    "\<forall>q. in_bounds w h q \<longrightarrow> cell pic' q = (if q \<in> set pts then c else cell pic1 q)"
    using Cons.IH [OF p1(2)] Cons.prems(2) by auto
  have "paint_all pic c (p # pts) = Inr pic'"
    using p1(1) p2(1) by simp
  moreover have "\<forall>q. in_bounds w h q \<longrightarrow>
      cell pic' q = (if q \<in> set (p # pts) then c else cell pic q)"
    using p1(3) p2(3) by auto
  ultimately show ?case
    using p2(2) by blast
qed

lemma shape_replicate: "shape w h (replicate (nat h) (replicate (nat w) v))"
  by (simp add: shape_def)

lemma cell_replicate:
  "in_bounds w h q \<Longrightarrow> cell (replicate (nat h) (replicate (nat w) v)) q = v"
  by (simp add: cell_def in_bounds_def)

section \<open>One visit of a neighbour\<close>

text \<open>
  The label array and the set \<open>remaining\<close> agree: the cells within the map that are not
  coloured yet are the elements of \<open>remaining\<close>.
\<close>

definition consistent :: "int \<Rightarrow> int \<Rightarrow> flood \<Rightarrow> bool" where
  "consistent w h st \<longleftrightarrow>
     shape w h (picture st) \<and> distinct (remaining st) \<and>
     (\<forall>p \<in> set (remaining st). in_bounds w h p) \<and>
     (\<forall>p. in_bounds w h p \<longrightarrow>
        (cell (picture st) p = NOT_COLORED_YET \<longleftrightarrow> p \<in> set (remaining st)))"

lemma visit_consistent:
  assumes "consistent w h st" and "c \<noteq> NOT_COLORED_YET"
    and "q = (fst base + fst off, snd base + snd off)"
  shows "\<exists>st'. visit w h c base st off = Inr st' \<and> consistent w h st' \<and>
    (if q \<in> set (remaining st)
     then remaining st' = remove1 q (remaining st) \<and> queue st' = queue st @ [q] \<and>
          currentGroup st' = set_add q (currentGroup st)
     else st' = st)"
proof (cases "in_bounds w h q")
  case False
  then have "q \<notin> set (remaining st)"
    using assms(1) by (auto simp: consistent_def)
  moreover have "visit w h c base st off = Inr st"
    using False by (auto simp: visit_def Let_def in_bounds_def assms(3))
  ultimately show ?thesis
    using assms(1) by simp
next
  case True
  have sh: "shape w h (picture st)"
    using assms(1) by (simp add: consistent_def)
  have lab: "label_at (picture st) (snd base + snd off) (fst base + fst off) = Inr (cell (picture st) q)"
    using label_at_in_bounds [OF sh] True by (simp add: assms(3))
  have nb: "\<not> (fst base + fst off < 0 \<or> snd base + snd off < 0 \<or>
      fst base + fst off \<ge> w \<or> snd base + snd off \<ge> h)"
    using True by (auto simp: in_bounds_def assms(3))
  show ?thesis
  proof (cases "q \<in> set (remaining st)")
    case False
    then have "cell (picture st) q \<noteq> NOT_COLORED_YET"
      using assms(1) True unfolding consistent_def by blast
    then have "visit w h c base st off = Inr st"
      using nb lab by (simp add: visit_def Let_def)
    then show ?thesis
      using assms(1) False by simp
  next
    case mem: True
    then have unc: "cell (picture st) q = NOT_COLORED_YET"
      using assms(1) True unfolding consistent_def by blast
    obtain pic' where p: "paint (picture st) c q = Inr pic'" "shape w h pic'"
      "\<forall>p. in_bounds w h p \<longrightarrow> cell pic' p = (if p = q then c else cell (picture st) p)"
      using paint_in_bounds [OF sh True, of c] by blast
    define st' where "st' = st\<lparr>picture := pic', remaining := remove1 q (remaining st),
      queue := queue st @ [q], currentGroup := set_add q (currentGroup st)\<rparr>"
    have res: "visit w h c base st off = Inr st'"
      using nb lab unc mem p(1) by (simp add: visit_def Let_def st'_def assms(3) [symmetric])
    have d: "distinct (remaining st)"
      using assms(1) by (simp add: consistent_def)
    have "consistent w h st'"
      unfolding consistent_def
    proof (intro conjI ballI allI impI)
      show "shape w h (picture st')"
        using p(2) by (simp add: st'_def)
      show "distinct (remaining st')"
        using d by (simp add: st'_def)
      show "in_bounds w h x" if "x \<in> set (remaining st')" for x
        using that assms(1) d by (auto simp: st'_def consistent_def)
      show "(cell (picture st') x = NOT_COLORED_YET) = (x \<in> set (remaining st'))"
        if "in_bounds w h x" for x
      proof -
        have a: "cell pic' x = (if x = q then c else cell (picture st) x)"
          using p(3) that by blast
        have b: "(cell (picture st) x = NOT_COLORED_YET) = (x \<in> set (remaining st))"
          using assms(1) that unfolding consistent_def by blast
        show ?thesis
          using a b assms(2) d by (auto simp: st'_def)
      qed
    qed
    then show ?thesis
      using res mem by (simp add: st'_def)
  qed
qed

section \<open>The flood of one group\<close>

text \<open>
  The invariant of the flood from the start cell \<open>s\<close>: the group holds \<open>s\<close> and the
  queue, has no remaining cell, each of its cells is joined to \<open>s\<close> by hops within the
  group, and no group cell that has left the queue (the cells of \<open>P\<close>, which are being
  processed, apart) has a neighbour in \<open>remaining\<close>.
\<close>

definition flood_inv :: "int \<Rightarrow> point \<Rightarrow> point set \<Rightarrow> flood \<Rightarrow> bool" where
  "flood_inv m s P st \<longleftrightarrow>
     s \<in> set (currentGroup st) \<and> set (queue st) \<subseteq> set (currentGroup st) \<and>
     distinct (currentGroup st) \<and>
     set (currentGroup st) \<inter> set (remaining st) = {} \<and>
     (\<forall>q \<in> set (currentGroup st). (s, q) \<in> (hops m (set (currentGroup st)))\<^sup>*) \<and>
     (\<forall>p \<in> set (currentGroup st) - set (queue st) - P. \<forall>q \<in> set (remaining st). \<not> adjacent m p q)"

lemma hops_mono: "A \<subseteq> B \<Longrightarrow> hops m A \<subseteq> hops m B"
  by (auto simp: hops_def)

lemma hops_rtrancl_mono: "A \<subseteq> B \<Longrightarrow> (p, q) \<in> (hops m A)\<^sup>* \<Longrightarrow> (p, q) \<in> (hops m B)\<^sup>*"
  using rtrancl_mono [OF hops_mono] by blast

lemma adjacent_sym: "adjacent m p q \<longleftrightarrow> adjacent m q p"
  by (auto simp: adjacent_def)

lemma hops_sym: "(p, q) \<in> hops m S \<Longrightarrow> (q, p) \<in> hops m S"
  using adjacent_sym by (auto simp: hops_def)

lemma hops_rtrancl_sym: "(p, q) \<in> (hops m S)\<^sup>* \<Longrightarrow> (q, p) \<in> (hops m S)\<^sup>*"
proof (induction rule: rtrancl_induct)
  case base
  then show ?case by simp
next
  case (step y z)
  then show ?case
    by (meson converse_rtrancl_into_rtrancl hops_sym)
qed

lemma adjacent_offset:
  "\<bar>fst off\<bar> + \<bar>snd off\<bar> \<le> m \<Longrightarrow> adjacent m base (fst base + fst off, snd base + snd off)"
  by (simp add: adjacent_def)

lemma visit_flood_inv:
  assumes "consistent w h st" and "c \<noteq> NOT_COLORED_YET"
    and "flood_inv m s {base} st" and "base \<in> set (currentGroup st)"
    and "\<bar>fst off\<bar> + \<bar>snd off\<bar> \<le> m"
    and "q = (fst base + fst off, snd base + snd off)"
  shows "\<exists>st'. visit w h c base st off = Inr st' \<and> consistent w h st' \<and>
    flood_inv m s {base} st' \<and> base \<in> set (currentGroup st') \<and>
    set (remaining st') \<union> set (currentGroup st') = set (remaining st) \<union> set (currentGroup st) \<and>
    set (remaining st') \<subseteq> set (remaining st) \<and> q \<notin> set (remaining st')"
proof -
  obtain st' where v: "visit w h c base st off = Inr st'" and c': "consistent w h st'"
    and eff: "if q \<in> set (remaining st)
     then remaining st' = remove1 q (remaining st) \<and> queue st' = queue st @ [q] \<and>
          currentGroup st' = set_add q (currentGroup st)
     else st' = st"
    using visit_consistent [OF assms(1,2,6)] by blast
  show ?thesis
  proof (cases "q \<in> set (remaining st)")
    case False
    then have "st' = st"
      using eff by simp
    then show ?thesis
      using v c' assms(3,4) False by auto
  next
    case True
    have d: "distinct (remaining st)"
      using assms(1) by (simp add: consistent_def)
    have r': "set (remaining st') = set (remaining st) - {q}"
      and q': "set (queue st') = insert q (set (queue st))"
      and g': "set (currentGroup st') = insert q (set (currentGroup st))"
      using eff True d by simp_all
    have inv: "s \<in> set (currentGroup st)" "set (queue st) \<subseteq> set (currentGroup st)"
      "distinct (currentGroup st)" "set (currentGroup st) \<inter> set (remaining st) = {}"
      "\<forall>x \<in> set (currentGroup st). (s, x) \<in> (hops m (set (currentGroup st)))\<^sup>*"
      "\<forall>p \<in> set (currentGroup st) - set (queue st) - {base}. \<forall>x \<in> set (remaining st). \<not> adjacent m p x"
      using assms(3) by (simp_all add: flood_inv_def)
    have sub: "set (currentGroup st) \<subseteq> set (currentGroup st')"
      using g' by blast
    have reach: "(s, x) \<in> (hops m (set (currentGroup st')))\<^sup>*" if "x \<in> set (currentGroup st')" for x
    proof (cases "x \<in> set (currentGroup st)")
      case True
      then show ?thesis
        using inv(5) hops_rtrancl_mono [OF sub] by blast
    next
      case False
      then have x: "x = q"
        using that g' by simp
      have "(s, base) \<in> (hops m (set (currentGroup st')))\<^sup>*"
        using inv(5) assms(4) hops_rtrancl_mono [OF sub] by blast
      moreover have "(base, q) \<in> hops m (set (currentGroup st'))"
        using adjacent_offset [OF assms(5), of base] assms(4,6) g' by (simp add: hops_def)
      ultimately show ?thesis
        unfolding x by (rule rtrancl_into_rtrancl)
    qed
    have "flood_inv m s {base} st'"
      unfolding flood_inv_def
    proof (intro conjI ballI)
      show "s \<in> set (currentGroup st')"
        using inv(1) g' by simp
      show "set (queue st') \<subseteq> set (currentGroup st')"
        using inv(2) g' q' by blast
      show "distinct (currentGroup st')"
        using inv(3) eff True by simp
      show "set (currentGroup st') \<inter> set (remaining st') = {}"
        using inv(4) g' r' by blast
      show "(s, x) \<in> (hops m (set (currentGroup st')))\<^sup>*" if "x \<in> set (currentGroup st')" for x
        using reach that .
      show "\<not> adjacent m p x"
        if "p \<in> set (currentGroup st') - set (queue st') - {base}" and "x \<in> set (remaining st')" for p x
        using that inv(6) g' q' r' by blast
    qed
    then show ?thesis
      using v c' g' r' True assms(4) by auto
  qed
qed

lemma for_nearby_flood_inv:
  assumes "consistent w h st" and "c \<noteq> NOT_COLORED_YET"
    and "flood_inv m s {base} st" and "base \<in> set (currentGroup st)"
    and "\<forall>off \<in> set offs. \<bar>fst off\<bar> + \<bar>snd off\<bar> \<le> m"
  shows "\<exists>st'. for_nearby w h c base offs st = Inr st' \<and> consistent w h st' \<and>
    flood_inv m s {base} st' \<and> base \<in> set (currentGroup st') \<and>
    set (remaining st') \<union> set (currentGroup st') = set (remaining st) \<union> set (currentGroup st) \<and>
    set (remaining st') \<subseteq> set (remaining st) \<and>
    (\<forall>off \<in> set offs. (fst base + fst off, snd base + snd off) \<notin> set (remaining st'))"
  using assms
proof (induction offs arbitrary: st)
  case Nil
  then show ?case by simp
next
  case (Cons off offs)
  have off: "\<bar>fst off\<bar> + \<bar>snd off\<bar> \<le> m"
    using Cons.prems(5) by simp
  obtain st1 where v: "visit w h c base st off = Inr st1" and c1: "consistent w h st1"
    and f1: "flood_inv m s {base} st1" and b1: "base \<in> set (currentGroup st1)"
    and u1: "set (remaining st1) \<union> set (currentGroup st1) = set (remaining st) \<union> set (currentGroup st)"
    and r1: "set (remaining st1) \<subseteq> set (remaining st)"
    and q1: "(fst base + fst off, snd base + snd off) \<notin> set (remaining st1)"
    using visit_flood_inv [OF Cons.prems(1,2,3,4) off refl] by blast
  have offs: "\<forall>off \<in> set offs. \<bar>fst off\<bar> + \<bar>snd off\<bar> \<le> m"
    using Cons.prems(5) by simp
  obtain st' where f: "for_nearby w h c base offs st1 = Inr st'" and c': "consistent w h st'"
    and f': "flood_inv m s {base} st'" and b': "base \<in> set (currentGroup st')"
    and u': "set (remaining st') \<union> set (currentGroup st') = set (remaining st1) \<union> set (currentGroup st1)"
    and r': "set (remaining st') \<subseteq> set (remaining st1)"
    and q': "\<forall>off \<in> set offs. (fst base + fst off, snd base + snd off) \<notin> set (remaining st')"
    using Cons.IH [OF c1 Cons.prems(2) f1 b1 offs] by blast
  have "for_nearby w h c base (off # offs) st = Inr st'"
    using v f by simp
  moreover have "\<forall>o' \<in> set (off # offs). (fst base + fst o', snd base + snd o') \<notin> set (remaining st')"
    using q1 q' r' by auto
  ultimately show ?case
    using c' f' b' u' u1 r' r1 by auto
qed

lemma set_nearby: "set (nearby m) = {off. \<bar>fst off\<bar> + \<bar>snd off\<bar> \<le> m}"
  by (auto simp: nearby_def)

lemma while_queue_flood_inv:
  assumes "consistent w h st" and "c \<noteq> NOT_COLORED_YET" and "flood_inv m s {} st"
  shows "\<exists>st'. while_queue w h c (nearby m) st = Inr st' \<and> consistent w h st' \<and>
    flood_inv m s {} st' \<and> queue st' = [] \<and>
    set (remaining st') \<union> set (currentGroup st') = set (remaining st) \<union> set (currentGroup st) \<and>
    set (remaining st') \<subseteq> set (remaining st)"
  using assms
proof (induction w h c "nearby m" st rule: while_queue.induct)
  case (1 w h c st)
  show ?case
  proof (cases "queue st")
    case Nil
    then show ?thesis
      using "1.prems" by simp
  next
    case (Cons base rest)
    define st0 where "st0 = st\<lparr>queue := rest\<rparr>"
    have inv: "s \<in> set (currentGroup st)" "set (queue st) \<subseteq> set (currentGroup st)"
      "distinct (currentGroup st)" "set (currentGroup st) \<inter> set (remaining st) = {}"
      "\<forall>x \<in> set (currentGroup st). (s, x) \<in> (hops m (set (currentGroup st)))\<^sup>*"
      "\<forall>p \<in> set (currentGroup st) - set (queue st) - {}. \<forall>x \<in> set (remaining st). \<not> adjacent m p x"
      using "1.prems"(3) by (simp_all add: flood_inv_def)
    have c0: "consistent w h st0"
      using "1.prems"(1) by (simp add: consistent_def st0_def)
    have b0: "base \<in> set (currentGroup st0)"
      using inv(2) Cons by (simp add: st0_def)
    have f0: "flood_inv m s {base} st0"
      unfolding flood_inv_def using inv Cons by (auto simp: st0_def)
    have offs: "\<forall>off \<in> set (nearby m). \<bar>fst off\<bar> + \<bar>snd off\<bar> \<le> m"
      by (simp add: set_nearby)
    obtain st1 where f: "for_nearby w h c base (nearby m) st0 = Inr st1"
      and c1: "consistent w h st1"
      and f1: "flood_inv m s {base} st1" and b1: "base \<in> set (currentGroup st1)"
      and u1: "set (remaining st1) \<union> set (currentGroup st1) = set (remaining st0) \<union> set (currentGroup st0)"
      and r1: "set (remaining st1) \<subseteq> set (remaining st0)"
      and q1: "\<forall>off \<in> set (nearby m). (fst base + fst off, snd base + snd off) \<notin> set (remaining st1)"
      using for_nearby_flood_inv [OF c0 "1.prems"(2) f0 b0 offs] by blast
    have nomore: "\<not> adjacent m base x" if "x \<in> set (remaining st1)" for x
    proof
      assume a: "adjacent m base x"
      define off where "off = (fst x - fst base, snd x - snd base)"
      have "off \<in> set (nearby m)"
        using a by (simp add: set_nearby off_def adjacent_def abs_minus_commute)
      moreover have "(fst base + fst off, snd base + snd off) = x"
        by (simp add: off_def)
      ultimately show False
        using q1 that by force
    qed
    have f1': "flood_inv m s {} st1"
      using f1 nomore unfolding flood_inv_def by blast
    obtain st' where w: "while_queue w h c (nearby m) st1 = Inr st'" and c': "consistent w h st'"
      and f': "flood_inv m s {} st'" and e': "queue st' = []"
      and u': "set (remaining st') \<union> set (currentGroup st') = set (remaining st1) \<union> set (currentGroup st1)"
      and r': "set (remaining st') \<subseteq> set (remaining st1)"
      using "1.hyps" [OF Cons f [unfolded st0_def] c1 "1.prems"(2) f1'] by blast
    have "while_queue w h c (nearby m) st = Inr st'"
      using Cons f w by (simp add: st0_def)
    moreover have "set (remaining st') \<union> set (currentGroup st') = set (remaining st) \<union> set (currentGroup st)"
      using u' u1 by (simp add: st0_def)
    moreover have "set (remaining st') \<subseteq> set (remaining st)"
      using r' r1 by (auto simp: st0_def)
    ultimately show ?thesis
      using c' f' e' by blast
  qed
qed

section \<open>Clusters\<close>

lemma cluster_closed:
  assumes "cluster m S K" and "p \<in> K" and "(p, q) \<in> (hops m S)\<^sup>*"
  shows "q \<in> K"
  using assms(3)
proof (induction rule: rtrancl_induct)
  case base
  then show ?case by (rule assms(2))
next
  case (step y z)
  then have "z \<in> S" "adjacent m y z"
    by (auto simp: hops_def)
  moreover have "\<forall>a \<in> K. \<forall>b \<in> S - K. \<not> adjacent m a b"
    using assms(1) by (simp add: cluster_def)
  ultimately show ?case
    using step.IH by blast
qed

lemma cluster_unique:
  assumes "cluster m S K" and "cluster m S K'" and "p \<in> K" and "p \<in> K'"
  shows "K = K'"
proof -
  have sub: "A \<subseteq> B" if "cluster m S A" and "cluster m S B" and "p \<in> A" and "p \<in> B" for A B
  proof
    fix q
    assume "q \<in> A"
    moreover have "\<forall>a \<in> A. \<forall>b \<in> A. (a, b) \<in> (hops m A)\<^sup>*"
      using that(1) by (simp add: cluster_def)
    ultimately have "(p, q) \<in> (hops m A)\<^sup>*"
      using that(3) by blast
    moreover have "A \<subseteq> S"
      using that(1) by (simp add: cluster_def)
    ultimately have "(p, q) \<in> (hops m S)\<^sup>*"
      using hops_rtrancl_mono by blast
    then show "q \<in> B"
      using cluster_closed [OF that(2,4)] by blast
  qed
  show ?thesis
    using sub [OF assms(1,2,3,4)] sub [OF assms(2,1,4,3)] by blast
qed

lemma flooded_cluster:
  assumes "flood_inv m s {} st" and "queue st = []"
    and "set (remaining st) \<union> set (currentGroup st) = R" and "R \<subseteq> S"
    and "\<forall>p \<in> S - R. \<forall>q \<in> R. \<not> adjacent m p q"
  shows "cluster m S (set (currentGroup st))"
    and "\<forall>p \<in> S - set (remaining st). \<forall>q \<in> set (remaining st). \<not> adjacent m p q"
proof -
  let ?G = "set (currentGroup st)"
  have inv: "s \<in> ?G" "?G \<inter> set (remaining st) = {}"
    "\<forall>q \<in> ?G. (s, q) \<in> (hops m ?G)\<^sup>*"
    "\<forall>p \<in> ?G. \<forall>q \<in> set (remaining st). \<not> adjacent m p q"
    using assms(1,2) by (simp_all add: flood_inv_def)
  have conn: "(p, q) \<in> (hops m ?G)\<^sup>*" if "p \<in> ?G" and "q \<in> ?G" for p q
  proof -
    have "(p, s) \<in> (hops m ?G)\<^sup>*"
      using inv(3) that(1) hops_rtrancl_sym by blast
    moreover have "(s, q) \<in> (hops m ?G)\<^sup>*"
      using inv(3) that(2) by blast
    ultimately show ?thesis
      by (rule rtrancl_trans)
  qed
  have closed: "\<not> adjacent m p q" if "p \<in> ?G" and "q \<in> S - ?G" for p q
  proof (cases "q \<in> set (remaining st)")
    case True
    then show ?thesis
      using inv(4) that(1) by blast
  next
    case False
    then have "q \<in> S - R"
      using that(2) assms(3) by blast
    moreover have "p \<in> R"
      using that(1) assms(3) by blast
    ultimately have "\<not> adjacent m q p"
      using assms(5) by blast
    then show ?thesis
      using adjacent_sym by blast
  qed
  have "?G \<noteq> {}"
    using inv(1) by auto
  moreover have "?G \<subseteq> S"
    using assms(3,4) by blast
  moreover have "\<forall>p \<in> ?G. \<forall>q \<in> ?G. (p, q) \<in> (hops m ?G)\<^sup>*"
    using conn by blast
  moreover have "\<forall>p \<in> ?G. \<forall>q \<in> S - ?G. \<not> adjacent m p q"
    using closed by blast
  ultimately show "cluster m S ?G"
    unfolding cluster_def by (intro conjI)
  show "\<forall>p \<in> S - set (remaining st). \<forall>q \<in> set (remaining st). \<not> adjacent m p q"
  proof (intro ballI)
    fix p q
    assume p: "p \<in> S - set (remaining st)" and q: "q \<in> set (remaining st)"
    show "\<not> adjacent m p q"
    proof (cases "p \<in> ?G")
      case True
      then show ?thesis
        using inv(4) q by blast
    next
      case False
      then have "p \<in> S - R" "q \<in> R"
        using p q assms(3) by blast+
      then show ?thesis
        using assms(5) by blast
    qed
  qed
qed

section \<open>The outer loop\<close>

text \<open>
  The invariant at the head of the outer loop, for the input point set \<open>S\<close>: the queue
  is empty, no hop joins a remaining cell and a cell that has left \<open>remaining\<close>, the
  groups found are distinct clusters of \<open>S\<close> of at least the minimum size, and every cell
  that has left \<open>remaining\<close> lies in a cluster that is among the groups found if it has
  the minimum size.
\<close>

definition outer_inv ::
  "int \<Rightarrow> int \<Rightarrow> int \<Rightarrow> int \<Rightarrow> point set \<Rightarrow> int \<Rightarrow> flood \<Rightarrow> point list list \<Rightarrow> bool" where
  "outer_inv w h m minp S c st found \<longleftrightarrow>
     consistent w h st \<and> queue st = [] \<and> NOT_COLORED_YET \<le> c \<and>
     set (remaining st) \<subseteq> S \<and>
     (\<forall>p \<in> S - set (remaining st). \<forall>q \<in> set (remaining st). \<not> adjacent m p q) \<and>
     distinct (map set found) \<and>
     (\<forall>g \<in> set found. distinct g \<and> cluster m S (set g) \<and> minp \<le> int (length g) \<and>
        set g \<inter> set (remaining st) = {}) \<and>
     (\<forall>p \<in> S - set (remaining st).
        \<exists>K. p \<in> K \<and> cluster m S K \<and> (minp \<le> int (card K) \<longrightarrow> K \<in> set ` set found))"

lemma start_group_flood_inv:
  assumes "consistent w h st" and "queue st = []" and "NOT_COLORED_YET \<le> c"
    and "remaining st = s # rest"
  shows "\<exists>st1. start_group c (st\<lparr>currentGroup := []\<rparr>) = Inr (c + 1, st1) \<and>
    consistent w h st1 \<and> flood_inv m s {} st1 \<and>
    set (remaining st1) \<union> set (currentGroup st1) = set (remaining st) \<and>
    c + 1 \<noteq> NOT_COLORED_YET"
proof -
  have sh: "shape w h (picture st)" and d: "distinct (remaining st)"
    and sb: "in_bounds w h s"
    using assms(1,4) by (auto simp: consistent_def)
  obtain pic' where p: "paint (picture st) (c + 1) s = Inr pic'" "shape w h pic'"
    "\<forall>q. in_bounds w h q \<longrightarrow> cell pic' q = (if q = s then c + 1 else cell (picture st) q)"
    using paint_in_bounds [OF sh sb, of "c + 1"] by blast
  define st1 where "st1 = st\<lparr>picture := pic', remaining := rest, queue := [s], currentGroup := [s]\<rparr>"
  have res: "start_group c (st\<lparr>currentGroup := []\<rparr>) = Inr (c + 1, st1)"
    using assms(2,4) p(1) by (simp add: start_group_def st1_def set_add_def)
  have ne: "c + 1 \<noteq> NOT_COLORED_YET"
    using assms(3) by simp
  have "consistent w h st1"
    unfolding consistent_def
  proof (intro conjI ballI allI impI)
    show "shape w h (picture st1)"
      using p(2) by (simp add: st1_def)
    show "distinct (remaining st1)"
      using d assms(4) by (simp add: st1_def)
    show "in_bounds w h x" if "x \<in> set (remaining st1)" for x
      using that assms(1,4) by (auto simp: st1_def consistent_def)
    show "(cell (picture st1) x = NOT_COLORED_YET) = (x \<in> set (remaining st1))"
      if "in_bounds w h x" for x
    proof -
      have a: "cell pic' x = (if x = s then c + 1 else cell (picture st) x)"
        using p(3) that by blast
      have b: "(cell (picture st) x = NOT_COLORED_YET) = (x \<in> set (remaining st))"
        using assms(1) that unfolding consistent_def by blast
      show ?thesis
        using a b ne d assms(4) by (auto simp: st1_def)
    qed
  qed
  moreover have "flood_inv m s {} st1"
    using d assms(4) by (auto simp: flood_inv_def st1_def)
  moreover have "set (remaining st1) \<union> set (currentGroup st1) = set (remaining st)"
    using assms(4) by (auto simp: st1_def)
  ultimately show ?thesis
    using res ne by blast
qed

lemma outer_inv_step:
  assumes inv: "outer_inv w h m minp S c st found" and ne: "remaining st \<noteq> []"
  shows "\<exists>st1 st2. start_group c (st\<lparr>currentGroup := []\<rparr>) = Inr (c + 1, st1) \<and>
    while_queue w h (c + 1) (nearby m) st1 = Inr st2 \<and>
    outer_inv w h m minp S (c + 1) st2
      (if minp \<le> int (length (currentGroup st2)) then found @ [currentGroup st2] else found)"
proof -
  obtain s rest where sr: "remaining st = s # rest"
    using ne by (cases "remaining st") auto
  have o: "consistent w h st" "queue st = []" "NOT_COLORED_YET \<le> c"
    "set (remaining st) \<subseteq> S"
    "\<forall>p \<in> S - set (remaining st). \<forall>q \<in> set (remaining st). \<not> adjacent m p q"
    "distinct (map set found)"
    "\<forall>g \<in> set found. distinct g \<and> cluster m S (set g) \<and> minp \<le> int (length g) \<and>
        set g \<inter> set (remaining st) = {}"
    "\<forall>p \<in> S - set (remaining st).
        \<exists>K. p \<in> K \<and> cluster m S K \<and> (minp \<le> int (card K) \<longrightarrow> K \<in> set ` set found)"
    using inv by (simp_all add: outer_inv_def)
  obtain st1 where s1: "start_group c (st\<lparr>currentGroup := []\<rparr>) = Inr (c + 1, st1)"
    and c1: "consistent w h st1" and f1: "flood_inv m s {} st1"
    and u1: "set (remaining st1) \<union> set (currentGroup st1) = set (remaining st)"
    and ne1: "c + 1 \<noteq> NOT_COLORED_YET"
    using start_group_flood_inv [OF o(1,2,3) sr] by blast
  obtain st2 where w2: "while_queue w h (c + 1) (nearby m) st1 = Inr st2"
    and c2: "consistent w h st2" and f2: "flood_inv m s {} st2" and q2: "queue st2 = []"
    and u2: "set (remaining st2) \<union> set (currentGroup st2) = set (remaining st1) \<union> set (currentGroup st1)"
    and r2: "set (remaining st2) \<subseteq> set (remaining st1)"
    using while_queue_flood_inv [OF c1 ne1 f1] by blast
  let ?G = "set (currentGroup st2)"
  let ?R = "set (remaining st)"
  let ?R' = "set (remaining st2)"
  let ?found = "if minp \<le> int (length (currentGroup st2)) then found @ [currentGroup st2] else found"
  have u: "?R' \<union> ?G = ?R"
    using u1 u2 by simp
  have cl: "cluster m S ?G"
    and closed': "\<forall>p \<in> S - ?R'. \<forall>q \<in> ?R'. \<not> adjacent m p q"
    using flooded_cluster [OF f2 q2 u o(4,5)] by blast+
  have fi: "s \<in> ?G" "distinct (currentGroup st2)" "?G \<inter> ?R' = {}"
    using f2 by (simp_all add: flood_inv_def)
  have sR: "s \<in> ?R"
    using sr by simp
  have R'sub: "?R' \<subseteq> ?R"
    using u by blast
  have new: "?G \<notin> set ` set found"
  proof
    assume "?G \<in> set ` set found"
    then obtain g where "g \<in> set found" "set g = ?G"
      by auto
    then have "?G \<inter> ?R = {}"
      using o(7) by auto
    then show False
      using fi(1) sR by blast
  qed
  have d': "distinct (map set ?found)"
    using o(6) new by auto
  have g': "\<forall>g \<in> set ?found. distinct g \<and> cluster m S (set g) \<and> minp \<le> int (length g) \<and>
        set g \<inter> ?R' = {}"
  proof
    fix g
    assume g: "g \<in> set ?found"
    show "distinct g \<and> cluster m S (set g) \<and> minp \<le> int (length g) \<and> set g \<inter> ?R' = {}"
    proof (cases "g \<in> set found")
      case True
      then show ?thesis
        using o(7) R'sub by blast
    next
      case False
      then have "g = currentGroup st2" "minp \<le> int (length (currentGroup st2))"
        using g by (auto split: if_splits)
      then show ?thesis
        using fi cl by simp
    qed
  qed
  have cov: "\<forall>p \<in> S - ?R'.
        \<exists>K. p \<in> K \<and> cluster m S K \<and> (minp \<le> int (card K) \<longrightarrow> K \<in> set ` set ?found)"
  proof
    fix p
    assume p: "p \<in> S - ?R'"
    show "\<exists>K. p \<in> K \<and> cluster m S K \<and> (minp \<le> int (card K) \<longrightarrow> K \<in> set ` set ?found)"
    proof (cases "p \<in> ?G")
      case True
      have "card ?G = length (currentGroup st2)"
        using fi(2) by (simp add: distinct_card)
      then have "minp \<le> int (card ?G) \<longrightarrow> ?G \<in> set ` set ?found"
        by auto
      then show ?thesis
        using True cl by (intro exI [of _ ?G] conjI)
    next
      case False
      then have "p \<in> S - ?R"
        using p u by blast
      then obtain K where K: "p \<in> K" "cluster m S K"
        "minp \<le> int (card K) \<longrightarrow> K \<in> set ` set found"
        using o(8) by blast
      have "set ` set found \<subseteq> set ` set ?found"
        by auto
      then have "minp \<le> int (card K) \<longrightarrow> K \<in> set ` set ?found"
        using K(3) by blast
      then show ?thesis
        using K(1,2) by (intro exI [of _ K] conjI)
    qed
  qed
  have "NOT_COLORED_YET \<le> c + 1"
    using o(3) by simp
  moreover have "?R' \<subseteq> S"
    using R'sub o(4) by blast
  ultimately have "outer_inv w h m minp S (c + 1) st2 ?found"
    unfolding outer_inv_def
    using c2 q2 closed' d' g' cov by (intro conjI)
  then show ?thesis
    using s1 w2 by blast
qed

declare while_remaining.simps [simp del]

lemma while_remaining_clusters:
  assumes "outer_inv w h m minp S c st found"
  shows "\<exists>gs. while_remaining w h minp (nearby m) c st found = Inr gs \<and>
    distinct (map set gs) \<and>
    (\<forall>g \<in> set gs. distinct g \<and> cluster m S (set g) \<and> minp \<le> int (length g)) \<and>
    (\<forall>p \<in> S. \<exists>K. p \<in> K \<and> cluster m S K \<and> (minp \<le> int (card K) \<longrightarrow> K \<in> set ` set gs))"
  using assms
proof (induction w h minp "nearby m" c st found rule: while_remaining.induct)
  case (1 w h minp c st found)
  show ?case
  proof (cases "remaining st = []")
    case True
    have res: "while_remaining w h minp (nearby m) c st found = Inr found"
      using True by (subst while_remaining.simps) simp
    have "distinct (map set found)"
      and "\<forall>g \<in> set found. distinct g \<and> cluster m S (set g) \<and> minp \<le> int (length g)"
      and "\<forall>p \<in> S. \<exists>K. p \<in> K \<and> cluster m S K \<and> (minp \<le> int (card K) \<longrightarrow> K \<in> set ` set found)"
      using "1.prems" True by (simp_all add: outer_inv_def)
    then show ?thesis
      using res by (intro exI [of _ found] conjI)
  next
    case False
    let ?found = "\<lambda>st2. if minp \<le> int (length (currentGroup st2))
      then found @ [currentGroup st2] else found"
    obtain st1 st2 where s1: "start_group c (st\<lparr>currentGroup := []\<rparr>) = Inr (c + 1, st1)"
      and w2: "while_queue w h (c + 1) (nearby m) st1 = Inr st2"
      and inv2: "outer_inv w h m minp S (c + 1) st2 (?found st2)"
      using outer_inv_step [OF "1.prems" False] by blast
    have step: "while_remaining w h minp (nearby m) c st found =
        while_remaining w h minp (nearby m) (c + 1) st2 (?found st2)"
      using False s1 w2 by (subst while_remaining.simps) simp
    show ?thesis
      unfolding step by (rule "1.hyps" [OF False s1 refl w2 inv2])
  qed
qed

section \<open>The groups found are the clusters of at least the minimum size\<close>

lemma find_groups_clusters:
  assumes "\<forall>p \<in> set points. in_bounds w h p"
  shows "\<exists>gs. find_groups w h points minp m = Inr gs \<and>
    distinct (map set gs) \<and>
    (\<forall>g \<in> set gs. distinct g \<and> cluster m (set points) (set g) \<and> minp \<le> int (length g)) \<and>
    (\<forall>p \<in> set points. \<exists>K. p \<in> K \<and> cluster m (set points) K \<and>
       (minp \<le> int (card K) \<longrightarrow> K \<in> set ` set gs))"
proof -
  define pic0 where "pic0 = replicate (nat h) (replicate (nat w) NOT_INTERESTED)"
  obtain pic1 where p1: "paint_all pic0 NOT_COLORED_YET points = Inr pic1" "shape w h pic1"
    "\<forall>q. in_bounds w h q \<longrightarrow>
       cell pic1 q = (if q \<in> set points then NOT_COLORED_YET else cell pic0 q)"
    using paint_all_in_bounds [OF shape_replicate assms, of NOT_INTERESTED NOT_COLORED_YET]
    unfolding pic0_def by blast
  define st where "st = \<lparr>picture = pic1, remaining = remdups points, queue = [], currentGroup = []\<rparr>"
  have cells: "(cell pic1 q = NOT_COLORED_YET) = (q \<in> set points)" if "in_bounds w h q" for q
  proof -
    have a: "cell pic1 q = (if q \<in> set points then NOT_COLORED_YET else cell pic0 q)"
      using p1(3) that by blast
    have b: "cell pic0 q = NOT_INTERESTED"
      unfolding pic0_def using that by (rule cell_replicate)
    show ?thesis
      unfolding a b by (simp add: NOT_INTERESTED_def NOT_COLORED_YET_def)
  qed
  have "consistent w h st"
    unfolding consistent_def
  proof (intro conjI ballI allI impI)
    show "shape w h (picture st)"
      using p1(2) by (simp add: st_def)
    show "distinct (remaining st)"
      by (simp add: st_def)
    show "in_bounds w h x" if "x \<in> set (remaining st)" for x
      using that assms by (simp add: st_def)
    show "(cell (picture st) x = NOT_COLORED_YET) = (x \<in> set (remaining st))"
      if "in_bounds w h x" for x
      using cells [OF that] by (simp add: st_def)
  qed
  moreover have "queue st = []" "set (remaining st) = set points"
    by (simp_all add: st_def)
  ultimately have inv: "outer_inv w h m minp (set points) NOT_COLORED_YET st []"
    unfolding outer_inv_def by simp
  obtain gs where gs: "while_remaining w h minp (nearby m) NOT_COLORED_YET st [] = Inr gs"
    "distinct (map set gs)"
    "\<forall>g \<in> set gs. distinct g \<and> cluster m (set points) (set g) \<and> minp \<le> int (length g)"
    "\<forall>p \<in> set points. \<exists>K. p \<in> K \<and> cluster m (set points) K \<and>
       (minp \<le> int (card K) \<longrightarrow> K \<in> set ` set gs)"
    using while_remaining_clusters [OF inv] by (elim exE conjE)
  have "find_groups w h points minp m = Inr gs"
    using p1(1) gs(1) by (simp add: find_groups_def pic0_def [symmetric] st_def)
  then show ?thesis
    using gs(2,3,4) by (intro exI [of _ gs] conjI)
qed

section \<open>Example point sets\<close>

text \<open>
  Five cells on a map six wide and three high: three of them chained by hops of Manhattan
  distance at most two, and two more, two apart, out of reach of the first three.
\<close>

definition example_points :: "point list" where
  "example_points = [(0, 0), (1, 0), (5, 2), (2, 1), (5, 0)]"

lemma example_points_in_bounds: "\<forall>p \<in> set example_points. in_bounds 6 3 p"
  by (simp add: example_points_def in_bounds_def)

lemma find_groups_example_2:
  "find_groups 6 3 example_points 2 2 = Inr [[(0, 0), (1, 0), (2, 1)], [(5, 2), (5, 0)]]"
  by code_simp

lemma find_groups_example_3:
  "find_groups 6 3 example_points 3 2 = Inr [[(0, 0), (1, 0), (2, 1)]]"
  by code_simp

lemma cluster_example_pair: "cluster 2 (set example_points) {(5, 2), (5, 0)}"
proof -
  have "((5, 2), (5, 0)) \<in> hops 2 {(5, 2), (5, 0)}" "((5, 0), (5, 2)) \<in> hops 2 {(5, 2), (5, 0)}"
    by (simp_all add: hops_def adjacent_def)
  then have "\<forall>p \<in> {(5, 2), (5, 0) :: point}. \<forall>q \<in> {(5, 2), (5, 0)}. (p, q) \<in> (hops 2 {(5, 2), (5, 0)})\<^sup>*"
    by auto
  moreover have "\<forall>p \<in> {(5, 2), (5, 0) :: point}. \<forall>q \<in> set example_points - {(5, 2), (5, 0)}. \<not> adjacent 2 p q"
    by (auto simp: example_points_def adjacent_def)
  moreover have "{(5, 2), (5, 0) :: point} \<subseteq> set example_points"
    by (simp add: example_points_def)
  ultimately show ?thesis
    unfolding cluster_def by blast
qed

text \<open>
  C1. For every set of grid points of the map (\<open>0 \<le> x < map_width\<close>,
  \<open>0 \<le> y < map_height\<close>) and all values of the two parameters, \<open>_find_groups\<close> returns,
  and any two points of a returned group are joined by a chain of hops of Manhattan
  distance at most \<open>max_distance_between_points\<close> through points of the group, while two
  groups at different positions of the result are disjoint and no chain of hops through
  points of the input joins a point of one to a point of the other.
\<close>

theorem find_groups_connected_and_separate:
  assumes "\<forall>p \<in> set points. in_bounds w h p"
  shows "\<exists>gs. find_groups w h points minp m = Inr gs \<and>
    (\<forall>g \<in> set gs. \<forall>p \<in> set g. \<forall>q \<in> set g. (p, q) \<in> (hops m (set g))\<^sup>*) \<and>
    (\<forall>i < length gs. \<forall>j < length gs. i \<noteq> j \<longrightarrow>
       set (gs ! i) \<inter> set (gs ! j) = {} \<and>
       (\<forall>p \<in> set (gs ! i). \<forall>q \<in> set (gs ! j). (p, q) \<notin> (hops m (set points))\<^sup>*))"
proof -
  obtain gs where gs: "find_groups w h points minp m = Inr gs" "distinct (map set gs)"
    "\<forall>g \<in> set gs. distinct g \<and> cluster m (set points) (set g) \<and> minp \<le> int (length g)"
    using find_groups_clusters [OF assms, of minp m] by (elim exE conjE)
  have conn: "\<forall>g \<in> set gs. \<forall>p \<in> set g. \<forall>q \<in> set g. (p, q) \<in> (hops m (set g))\<^sup>*"
  proof
    fix g
    assume "g \<in> set gs"
    then have "cluster m (set points) (set g)"
      using gs(3) by blast
    then show "\<forall>p \<in> set g. \<forall>q \<in> set g. (p, q) \<in> (hops m (set g))\<^sup>*"
      by (simp add: cluster_def)
  qed
  have sep: "set (gs ! i) \<inter> set (gs ! j) = {} \<and>
       (\<forall>p \<in> set (gs ! i). \<forall>q \<in> set (gs ! j). (p, q) \<notin> (hops m (set points))\<^sup>*)"
    if "i < length gs" and "j < length gs" and "i \<noteq> j" for i j
  proof -
    have ci: "cluster m (set points) (set (gs ! i))" and cj: "cluster m (set points) (set (gs ! j))"
      using gs(3) that(1,2) by (simp_all add: nth_mem)
    have "map set gs ! i \<noteq> map set gs ! j"
      using gs(2) that by (simp add: nth_eq_iff_index_eq del: nth_map)
    then have ne: "set (gs ! i) \<noteq> set (gs ! j)"
      using that(1,2) by simp
    have disj: "set (gs ! i) \<inter> set (gs ! j) = {}"
    proof (rule ccontr)
      assume "set (gs ! i) \<inter> set (gs ! j) \<noteq> {}"
      then obtain x where "x \<in> set (gs ! i)" "x \<in> set (gs ! j)"
        by blast
      then show False
        using cluster_unique [OF ci cj] ne by blast
    qed
    have "(p, q) \<notin> (hops m (set points))\<^sup>*" if "p \<in> set (gs ! i)" and "q \<in> set (gs ! j)" for p q
    proof
      assume "(p, q) \<in> (hops m (set points))\<^sup>*"
      then have "q \<in> set (gs ! i)"
        using cluster_closed [OF ci that(1)] by blast
      then show False
        using disj that(2) by blast
    qed
    then show ?thesis
      using disj by blast
  qed
  show ?thesis
    using gs(1) conn sep by (intro exI [of _ gs] conjI) blast+
qed

theorem find_groups_connected_and_separate_witness:
  "list_all (in_bounds 6 3) example_points \<and>
   find_groups 6 3 example_points 2 2 = Inr [[(0, 0), (1, 0), (2, 1)], [(5, 2), (5, 0)]] \<and>
   ((0, 0), (2, 1)) \<in> (hops 2 {(0, 0), (1, 0), (2, 1)})\<^sup>* \<and>
   ((0, 0), (5, 2)) \<notin> (hops 2 (set example_points))\<^sup>*"
proof -
  let ?gs = "[[(0, 0), (1, 0), (2, 1)], [(5, 2), (5, 0)]] :: point list list"
  obtain gs where gs: "find_groups 6 3 example_points 2 2 = Inr gs"
    "\<forall>g \<in> set gs. \<forall>p \<in> set g. \<forall>q \<in> set g. (p, q) \<in> (hops 2 (set g))\<^sup>*"
    "\<forall>i < length gs. \<forall>j < length gs. i \<noteq> j \<longrightarrow>
       set (gs ! i) \<inter> set (gs ! j) = {} \<and>
       (\<forall>p \<in> set (gs ! i). \<forall>q \<in> set (gs ! j). (p, q) \<notin> (hops 2 (set example_points))\<^sup>*)"
    using find_groups_connected_and_separate [OF example_points_in_bounds, of 2 2]
    by (elim exE conjE)
  have eq: "gs = ?gs"
    using gs(1) find_groups_example_2 by simp
  have "[(0, 0), (1, 0), (2, 1)] \<in> set ?gs"
    by simp
  then have a: "((0, 0), (2, 1)) \<in> (hops 2 {(0, 0), (1, 0), (2, 1)})\<^sup>*"
    using gs(2) unfolding eq by fastforce
  have "(0 :: nat) < length ?gs" "(1 :: nat) < length ?gs" "(0 :: nat) \<noteq> 1"
    by simp_all
  then have "\<forall>p \<in> set (?gs ! 0). \<forall>q \<in> set (?gs ! 1). (p, q) \<notin> (hops 2 (set example_points))\<^sup>*"
    using gs(3) unfolding eq by blast
  then have b: "((0, 0), (5, 2)) \<notin> (hops 2 (set example_points))\<^sup>*"
    by simp
  have "list_all (in_bounds 6 3) example_points"
    by (simp add: example_points_def in_bounds_def)
  then show ?thesis
    using find_groups_example_2 a b by blast
qed

text \<open>
  C8. For every set of grid points of the map, \<open>_find_groups\<close> returns, and a
  cluster of the input (a maximal connected component under the dilated adjacency) is
  among the groups returned exactly if it has at least \<open>minimum_points_per_group\<close> cells:
  one of exactly that size is retained, one of a cell less is dropped.
\<close>

theorem find_groups_threshold:
  assumes "\<forall>p \<in> set points. in_bounds w h p"
  shows "\<exists>gs. find_groups w h points minp m = Inr gs \<and>
    (\<forall>K. cluster m (set points) K \<longrightarrow> (K \<in> set ` set gs \<longleftrightarrow> minp \<le> int (card K)))"
proof -
  obtain gs where gs: "find_groups w h points minp m = Inr gs"
    "\<forall>g \<in> set gs. distinct g \<and> cluster m (set points) (set g) \<and> minp \<le> int (length g)"
    "\<forall>p \<in> set points. \<exists>K. p \<in> K \<and> cluster m (set points) K \<and>
       (minp \<le> int (card K) \<longrightarrow> K \<in> set ` set gs)"
    using find_groups_clusters [OF assms, of minp m] by (elim exE conjE)
  have "(K \<in> set ` set gs) = (minp \<le> int (card K))" if K: "cluster m (set points) K" for K
  proof
    assume "K \<in> set ` set gs"
    then obtain g where g: "g \<in> set gs" "K = set g"
      by auto
    then have "distinct g" "minp \<le> int (length g)"
      using gs(2) by blast+
    then show "minp \<le> int (card K)"
      by (simp add: g(2) distinct_card)
  next
    assume big: "minp \<le> int (card K)"
    obtain p where p: "p \<in> K" "p \<in> set points"
      using K unfolding cluster_def by blast
    then obtain K0 where K0: "p \<in> K0" "cluster m (set points) K0"
      "minp \<le> int (card K0) \<longrightarrow> K0 \<in> set ` set gs"
      using gs(3) by blast
    have "K0 = K"
      using cluster_unique [OF K0(2) K K0(1) p(1)] .
    then show "K \<in> set ` set gs"
      using K0(3) big by simp
  qed
  then show ?thesis
    using gs(1) by (intro exI [of _ gs] conjI) blast+
qed

theorem find_groups_threshold_witness:
  "list_all (in_bounds 6 3) example_points \<and>
   cluster 2 (set example_points) {(5, 2), (5, 0)} \<and>
   find_groups 6 3 example_points 2 2 = Inr [[(0, 0), (1, 0), (2, 1)], [(5, 2), (5, 0)]] \<and>
   {(5, 2), (5, 0)} \<in> set ` set [[(0, 0), (1, 0), (2, 1)], [(5, 2), (5, 0) :: point]] \<and>
   find_groups 6 3 example_points 3 2 = Inr [[(0, 0), (1, 0), (2, 1)]] \<and>
   {(5, 2), (5, 0)} \<notin> set ` set [[(0, 0), (1, 0), (2, 1) :: point]]"
proof -
  have card: "int (card {(5, 2), (5, 0) :: point}) = 2"
    by simp
  obtain gs where gs: "find_groups 6 3 example_points 2 2 = Inr gs"
    "(\<forall>K. cluster 2 (set example_points) K \<longrightarrow> (K \<in> set ` set gs \<longleftrightarrow> 2 \<le> int (card K)))"
    using find_groups_threshold [OF example_points_in_bounds, of 2 2] by (elim exE conjE)
  have eq: "gs = [[(0, 0), (1, 0), (2, 1)], [(5, 2), (5, 0)]]"
    using gs(1) find_groups_example_2 by simp
  have a: "{(5, 2), (5, 0)} \<in> set ` set [[(0, 0), (1, 0), (2, 1)], [(5, 2), (5, 0) :: point]]"
    using gs(2) cluster_example_pair card unfolding eq by simp
  obtain gs' where gs': "find_groups 6 3 example_points 3 2 = Inr gs'"
    "(\<forall>K. cluster 2 (set example_points) K \<longrightarrow> (K \<in> set ` set gs' \<longleftrightarrow> 3 \<le> int (card K)))"
    using find_groups_threshold [OF example_points_in_bounds, of 3 2] by (elim exE conjE)
  have eq': "gs' = [[(0, 0), (1, 0), (2, 1)]]"
    using gs'(1) find_groups_example_3 by simp
  have "({(5, 2), (5, 0)} \<in> set ` set gs') = (3 \<le> int (card {(5, 2), (5, 0) :: point}))"
    using gs'(2) cluster_example_pair by blast
  then have b: "{(5, 2), (5, 0)} \<notin> set ` set [[(0, 0), (1, 0), (2, 1) :: point]]"
    unfolding eq' card by simp
  have "list_all (in_bounds 6 3) example_points"
    by (simp add: example_points_def in_bounds_def)
  then show ?thesis
    using cluster_example_pair find_groups_example_2 find_groups_example_3 a b by blast
qed

section \<open>The Ramp object and its cache\<close>

text \<open>
  The accessors of \<open>Ramp\<close> are properties that memoise their value in \<open>self.cache\<close>; those
  that return a set hand out a copy of the cached set. To state what a caller can and
  cannot disturb, the Ramp is modelled here as an object in a store: sets are objects at
  addresses, an accessor returns a reference or an immutable value, and a mutation of a
  set changes the store at its address. A set holds grid points or, for \<open>corner_depots\<close>,
  points with fractional coordinates.

  The terrain height map is kept as a field of the object; the source reads it through
  the accessor \<open>_height_map\<close>, whose cache entry no other accessor reads.
\<close>

type_synonym addr = nat

datatype pyobj = GridSet "point list" | PointSet "point2 list"

datatype pyval = Ref addr | PPoint point2 | PBool bool

record ramp_object =
  self_points :: addr
  self_heights :: "point \<Rightarrow> int"
  objects :: "addr \<Rightarrow> pyobj"
  next_addr :: addr
  cache :: "string \<rightharpoonup> pyval"

type_synonym 'a action = "ramp_object \<Rightarrow> (error + 'a) \<times> ramp_object"

definition ret :: "'a \<Rightarrow> 'a action" where
  "ret x st = (Inr x, st)"

definition raise :: "error \<Rightarrow> 'a action" where
  "raise e st = (Inl e, st)"

definition bind :: "'a action \<Rightarrow> ('a \<Rightarrow> 'b action) \<Rightarrow> 'b action" where
  "bind m k st = (case m st of (Inl e, st1) \<Rightarrow> (Inl e, st1) | (Inr x, st1) \<Rightarrow> k x st1)"

text \<open>A new set object; \<open>.copy()\<close> of a set; the elements of a set; \<open>.pop()\<close> on a set.\<close>

definition alloc :: "pyobj \<Rightarrow> pyval action" where
  "alloc obj st =
     (let a = next_addr st
      in (Inr (Ref a), st\<lparr>objects := (objects st)(a := obj), next_addr := a + 1\<rparr>))"

definition copy_of :: "pyval \<Rightarrow> pyval action" where
  "copy_of v st =
     (case v of Ref a \<Rightarrow> alloc (objects st a) st | _ \<Rightarrow> (Inl AttributeError, st))"

definition grid_of :: "pyval \<Rightarrow> (point list) action" where
  "grid_of v st =
     (case v of
        Ref a \<Rightarrow> (case objects st a of GridSet ps \<Rightarrow> (Inr ps, st) | _ \<Rightarrow> (Inl TypeError, st))
      | _ \<Rightarrow> (Inl TypeError, st))"

definition points_of :: "pyval \<Rightarrow> (point2 list) action" where
  "points_of v st =
     (case v of
        Ref a \<Rightarrow> (case objects st a of PointSet qs \<Rightarrow> (Inr qs, st) | _ \<Rightarrow> (Inl TypeError, st))
      | _ \<Rightarrow> (Inl TypeError, st))"

definition point_of :: "pyval \<Rightarrow> point2 action" where
  "point_of v st = (case v of PPoint p \<Rightarrow> (Inr p, st) | _ \<Rightarrow> (Inl TypeError, st))"

definition bool_of :: "pyval \<Rightarrow> bool action" where
  "bool_of v st = (case v of PBool b \<Rightarrow> (Inr b, st) | _ \<Rightarrow> (Inl TypeError, st))"

definition set_pop :: "pyval \<Rightarrow> point action" where
  "set_pop v st =
     (case v of
        Ref a \<Rightarrow>
          (case objects st a of
             GridSet [] \<Rightarrow> (Inl KeyError, st)
           | GridSet (x # xs) \<Rightarrow> (Inr x, st\<lparr>objects := (objects st)(a := GridSet xs)\<rparr>)
           | _ \<Rightarrow> (Inl TypeError, st))
      | _ \<Rightarrow> (Inl AttributeError, st))"

text \<open>
  Modelled from the spec: the decorators \<open>property_mutable_cache\<close> and
  \<open>property_immutable_cache\<close> of \<open>cache.py\<close>, which is not part of the sources at hand. A
  derived value is computed on first access and stored under the accessor's name; later
  accesses return the stored value, and for a value that is a mutable container every
  access returns a fresh copy of the stored container.
\<close>

definition property_mutable_cache :: "string \<Rightarrow> pyval action \<Rightarrow> pyval action" where
  "property_mutable_cache name f st =
     (case cache st name of
        None \<Rightarrow>
          (case f st of
             (Inl e, st1) \<Rightarrow> (Inl e, st1)
           | (Inr v, st1) \<Rightarrow> copy_of v (st1\<lparr>cache := (cache st1)(name \<mapsto> v)\<rparr>))
      | Some v \<Rightarrow> copy_of v st)"

definition property_immutable_cache :: "string \<Rightarrow> pyval action \<Rightarrow> pyval action" where
  "property_immutable_cache name f st =
     (case cache st name of
        None \<Rightarrow>
          (case f st of
             (Inl e, st1) \<Rightarrow> (Inl e, st1)
           | (Inr v, st1) \<Rightarrow> (Inr v, st1\<lparr>cache := (cache st1)(name \<mapsto> v)\<rparr>))
      | Some v \<Rightarrow> (Inr v, st))"

section \<open>The accessors of Ramp on the store\<close>

definition points_property :: "pyval action" where
  "points_property =
     property_mutable_cache ''points'' (\<lambda>st. copy_of (Ref (self_points st)) st)"

definition upper_property :: "pyval action" where
  "upper_property =
     property_mutable_cache ''upper''
       (\<lambda>st. bind (grid_of (Ref (self_points st)))
          (\<lambda>ps. alloc (GridSet (upper_loop (self_heights st) ps (- 10000) []))) st)"

definition lower_property :: "pyval action" where
  "lower_property =
     property_mutable_cache ''lower''
       (\<lambda>st. bind (grid_of (Ref (self_points st)))
          (\<lambda>ps. alloc (GridSet (lower_loop (self_heights st) ps 10000 []))) st)"

definition top_center_property :: "pyval action" where
  "top_center_property =
     property_immutable_cache ''top_center''
       (bind upper_property (\<lambda>v. bind (grid_of v) (\<lambda>up.
          let len = length up in
          if len = 0 then raise ZeroDivisionError
          else ret (PPoint (real_of_int (sum_list (map fst up)) / real len,
                            real_of_int (sum_list (map snd up)) / real len)))))"

definition bottom_center_property :: "pyval action" where
  "bottom_center_property =
     property_immutable_cache ''bottom_center''
       (bind lower_property (\<lambda>v. bind (grid_of v) (\<lambda>lo.
          let len = length lo in
          if len = 0 then raise ZeroDivisionError
          else ret (PPoint (real_of_int (sum_list (map fst lo)) / real len,
                            real_of_int (sum_list (map snd lo)) / real len)))))"

text \<open>The keys of the sort in \<open>upper2_for_ramp_wall\<close>: each reads \<open>self.bottom_center\<close>.\<close>

fun keys_of_upper :: "point list \<Rightarrow> (real list) action" where
  "keys_of_upper [] = ret []"
| "keys_of_upper (x # xs) =
     bind bottom_center_property (\<lambda>v. bind (point_of v) (\<lambda>bc.
       bind (keys_of_upper xs) (\<lambda>ks. ret (distance_squared (to_point2 x) bc # ks))))"

definition upper2_for_ramp_wall_property :: "pyval action" where
  "upper2_for_ramp_wall_property =
     property_mutable_cache ''upper2_for_ramp_wall''
       (bind upper_property (\<lambda>v1. bind (grid_of v1) (\<lambda>up1.
          if length up1 > 5 then alloc (GridSet [])
          else
            bind upper_property (\<lambda>v2. bind (grid_of v2) (\<lambda>up2.
              bind (keys_of_upper up2) (\<lambda>ks.
                alloc (GridSet (pop_to_two
                  (map snd (sort_key (\<lambda>kx. - fst kx) (zip ks up2)))))))))))"

definition barracks_in_middle_property :: "pyval action" where
  "barracks_in_middle_property =
     property_immutable_cache ''barracks_in_middle''
       (bind upper2_for_ramp_wall_property (\<lambda>v. bind (grid_of v) (\<lambda>u.
          if length u = 2 then
            bind upper2_for_ramp_wall_property (\<lambda>points.
              bind (set_pop points) (\<lambda>a. bind (set_pop points) (\<lambda>b.
                let p1 = offset (to_point2 a) (x_offset, y_offset);
                    p2 = offset (to_point2 b) (x_offset, y_offset)
                in case circle_intersection p1 p2 (sqrt 5) of
                     Inl e \<Rightarrow> raise e
                   | Inr intersects \<Rightarrow>
                       bind lower_property (\<lambda>vl. bind (grid_of vl) (\<lambda>lo.
                         case lo of
                           [] \<Rightarrow> raise StopIteration
                         | anyLowerPoint # _ \<Rightarrow>
                             (case max_key (\<lambda>p. distance_squared p (to_point2 anyLowerPoint))
                                     intersects of
                                Inl e \<Rightarrow> raise e
                              | Inr m \<Rightarrow> ret (PPoint m)))))))
          else raise DegenerateRamp)))"

definition depot_in_middle_property :: "pyval action" where
  "depot_in_middle_property =
     property_immutable_cache ''depot_in_middle''
       (bind upper2_for_ramp_wall_property (\<lambda>v. bind (grid_of v) (\<lambda>u.
          if length u = 2 then
            bind upper2_for_ramp_wall_property (\<lambda>points.
              bind (set_pop points) (\<lambda>a. bind (set_pop points) (\<lambda>b.
                let p1 = offset (to_point2 a) (x_offset, y_offset);
                    p2 = offset (to_point2 b) (x_offset, y_offset)
                in case circle_intersection p1 p2 (sqrt (5 / 2)) of
                     Inl e \<Rightarrow> raise e
                   | Inr intersects \<Rightarrow>
                       bind lower_property (\<lambda>vl. bind (grid_of vl) (\<lambda>lo.
                         case lo of
                           [] \<Rightarrow> raise StopIteration
                         | anyLowerPoint # _ \<Rightarrow>
                             (case max_key (\<lambda>p. distance_squared p (to_point2 anyLowerPoint))
                                     intersects of
                                Inl e \<Rightarrow> raise e
                              | Inr m \<Rightarrow> ret (PPoint m)))))))
          else raise DegenerateRamp)))"

definition corner_depots_property :: "pyval action" where
  "corner_depots_property =
     property_mutable_cache ''corner_depots''
       (bind upper2_for_ramp_wall_property (\<lambda>v. bind (grid_of v) (\<lambda>u.
          if length u = 2 then
            bind upper2_for_ramp_wall_property (\<lambda>points.
              bind (set_pop points) (\<lambda>a. bind (set_pop points) (\<lambda>b.
                let p1 = offset (to_point2 a) (x_offset, y_offset);
                    p2 = offset (to_point2 b) (x_offset, y_offset);
                    center = towards p1 p2 (distance_to p1 p2 / 2)
                in bind depot_in_middle_property (\<lambda>vd. bind (point_of vd) (\<lambda>depotPosition.
                     case circle_intersection center depotPosition (sqrt 5) of
                       Inl e \<Rightarrow> raise e
                     | Inr intersects \<Rightarrow> alloc (PointSet intersects))))))
          else raise DegenerateRamp)))"

definition barracks_can_fit_addon_property :: "pyval action" where
  "barracks_can_fit_addon_property =
     property_immutable_cache ''barracks_can_fit_addon''
       (bind upper2_for_ramp_wall_property (\<lambda>v. bind (grid_of v) (\<lambda>u.
          if length u = 2 then
            bind barracks_in_middle_property (\<lambda>vb. bind (point_of vb) (\<lambda>barracks.
              bind corner_depots_property (\<lambda>vc. bind (points_of vc) (\<lambda>depots.
                case max_key fst depots of
                  Inl e \<Rightarrow> raise e
                | Inr depot \<Rightarrow> ret (PBool (fst barracks + 1 > fst depot))))))
          else raise DegenerateRamp)))"

definition barracks_correct_placement_property :: "pyval action" where
  "barracks_correct_placement_property =
     property_immutable_cache ''barracks_correct_placement''
       (bind upper2_for_ramp_wall_property (\<lambda>v. bind (grid_of v) (\<lambda>u.
          if length u = 2 then
            bind barracks_can_fit_addon_property (\<lambda>vf. bind (bool_of vf) (\<lambda>fits.
              if fits then barracks_in_middle_property
              else
                bind barracks_in_middle_property (\<lambda>vb. bind (point_of vb) (\<lambda>barracks.
                  ret (PPoint (offset barracks (- 2, 0)))))))
          else raise DegenerateRamp)))"

section \<open>What the accessors denote\<close>

text \<open>
  The value an accessor denotes for a Region, given by the functions of the first part:
  a set by its elements, a point or a truth value by itself, or the exception raised.
\<close>

datatype dval = DSet pyobj | DPoint point2 | DBool bool

definition value_of :: "ramp_object \<Rightarrow> pyval \<Rightarrow> dval" where
  "value_of st v = (case v of Ref a \<Rightarrow> DSet (objects st a) | PPoint p \<Rightarrow> DPoint p | PBool b \<Rightarrow> DBool b)"

definition grid_value :: "error + point list \<Rightarrow> error + dval" where
  "grid_value x = (case x of Inl e \<Rightarrow> Inl e | Inr ps \<Rightarrow> Inr (DSet (GridSet ps)))"

definition points_value :: "error + point2 list \<Rightarrow> error + dval" where
  "points_value x = (case x of Inl e \<Rightarrow> Inl e | Inr qs \<Rightarrow> Inr (DSet (PointSet qs)))"

definition point_value :: "error + point2 \<Rightarrow> error + dval" where
  "point_value x = (case x of Inl e \<Rightarrow> Inl e | Inr p \<Rightarrow> Inr (DPoint p))"

definition bool_value :: "error + bool \<Rightarrow> error + dval" where
  "bool_value x = (case x of Inl e \<Rightarrow> Inl e | Inr b \<Rightarrow> Inr (DBool b))"

definition denotation :: "ramp \<Rightarrow> string \<Rightarrow> error + dval" where
  "denotation r name =
     (if name = ''points'' then grid_value (Inr (ramp_points r))
      else if name = ''upper'' then grid_value (Inr (upper r))
      else if name = ''lower'' then grid_value (Inr (lower r))
      else if name = ''top_center'' then point_value (top_center r)
      else if name = ''bottom_center'' then point_value (bottom_center r)
      else if name = ''upper2_for_ramp_wall'' then grid_value (upper2_for_ramp_wall r)
      else if name = ''barracks_in_middle'' then point_value (barracks_in_middle r)
      else if name = ''depot_in_middle'' then point_value (depot_in_middle r)
      else if name = ''corner_depots'' then points_value (corner_depots r)
      else if name = ''barracks_can_fit_addon'' then bool_value (barracks_can_fit_addon r)
      else if name = ''barracks_correct_placement'' then point_value (barracks_correct_placement r)
      else Inl AttributeError)"

text \<open>\<open>getattr(ramp, name)\<close> for the accessors above.\<close>

definition getattr :: "string \<Rightarrow> pyval action" where
  "getattr name =
     (if name = ''points'' then points_property
      else if name = ''upper'' then upper_property
      else if name = ''lower'' then lower_property
      else if name = ''top_center'' then top_center_property
      else if name = ''bottom_center'' then bottom_center_property
      else if name = ''upper2_for_ramp_wall'' then upper2_for_ramp_wall_property
      else if name = ''barracks_in_middle'' then barracks_in_middle_property
      else if name = ''depot_in_middle'' then depot_in_middle_property
      else if name = ''corner_depots'' then corner_depots_property
      else if name = ''barracks_can_fit_addon'' then barracks_can_fit_addon_property
      else if name = ''barracks_correct_placement'' then barracks_correct_placement_property
      else raise AttributeError)"

text \<open>
  The invariant of a Ramp object for the Region \<open>r\<close>: \<open>_points\<close> and the height map are
  those of \<open>r\<close>, every cache entry holds what its accessor denotes, and the addresses in
  \<open>U\<close> (the sets that have been handed out) are allocated and are neither \<open>_points\<close> nor
  referenced by the cache.
\<close>

definition ramp_inv :: "ramp \<Rightarrow> addr set \<Rightarrow> ramp_object \<Rightarrow> bool" where
  "ramp_inv r U st \<longleftrightarrow>
     self_heights st = height_at r \<and>
     objects st (self_points st) = GridSet (ramp_points r) \<and>
     self_points st < next_addr st \<and> self_points st \<notin> U \<and>
     (\<forall>n v. cache st n = Some v \<longrightarrow>
        denotation r n = Inr (value_of st v) \<and>
        (\<forall>a. v = Ref a \<longrightarrow> a < next_addr st \<and> a \<notin> U)) \<and>
     (\<forall>a \<in> U. a < next_addr st)"

text \<open>
  An action returns \<open>d\<close>: it raises the exception \<open>d\<close> stands for, or it returns a value
  that denotes \<open>d\<close>, and a set it returns is a new one, which may be handed out.
\<close>

definition returns :: "ramp \<Rightarrow> addr set \<Rightarrow> error + dval \<Rightarrow> (error + pyval) \<times> ramp_object \<Rightarrow> bool" where
  "returns r U d out \<longleftrightarrow>
     ramp_inv r U (snd out) \<and>
     (case d of
        Inl e \<Rightarrow> fst out = Inl e
      | Inr dv \<Rightarrow>
          (\<exists>v. fst out = Inr v \<and> value_of (snd out) v = dv \<and>
             (\<forall>a. v = Ref a \<longrightarrow> a \<notin> U \<and> ramp_inv r (insert a U) (snd out))))"

lemma inv_weaken: "ramp_inv r (insert a U) st \<Longrightarrow> ramp_inv r U st"
  by (auto simp: ramp_inv_def)

lemma inv_mutate:
  assumes "ramp_inv r U st" and "a \<in> U"
  shows "ramp_inv r U (st\<lparr>objects := (objects st)(a := obj)\<rparr>)"
proof -
  have nu: "b \<notin> U" if "cache st n = Some (Ref b)" for n b
    using assms(1) that unfolding ramp_inv_def by blast
  have "value_of (st\<lparr>objects := (objects st)(a := obj)\<rparr>) v = value_of st v"
    if "cache st n = Some v" for n v
  proof (cases v)
    case (Ref b)
    then have "b \<noteq> a"
      using nu that assms(2) by auto
    then show ?thesis
      by (simp add: Ref value_of_def)
  qed (simp_all add: value_of_def)
  then show ?thesis
    using assms by (auto simp: ramp_inv_def)
qed

lemma alloc_returns:
  assumes "ramp_inv r U st"
  shows "returns r U (Inr (DSet obj)) (alloc obj st)"
proof -
  define b where "b = next_addr st"
  define st' where "st' = st\<lparr>objects := (objects st)(b := obj), next_addr := b + 1\<rparr>"
  have out: "alloc obj st = (Inr (Ref b), st')"
    by (simp add: alloc_def Let_def b_def st'_def)
  have lt: "a < next_addr st" if "cache st n = Some (Ref a)" for n a
    using assms that unfolding ramp_inv_def by blast
  have keep: "value_of st' v = value_of st v" if "cache st n = Some v" for n v
  proof (cases v)
    case (Ref a)
    then have "a \<noteq> b"
      using lt that by (auto simp: b_def)
    then show ?thesis
      by (simp add: Ref value_of_def st'_def)
  qed (simp_all add: value_of_def)
  have "b \<notin> U"
    using assms by (auto simp: ramp_inv_def b_def)
  moreover have "ramp_inv r (insert b U) st'"
    unfolding ramp_inv_def
  proof (intro conjI allI impI ballI)
    show "self_heights st' = height_at r"
      using assms by (simp add: ramp_inv_def st'_def)
    show "objects st' (self_points st') = GridSet (ramp_points r)"
      using assms by (auto simp: ramp_inv_def st'_def b_def)
    show "self_points st' < next_addr st'"
      using assms by (simp add: ramp_inv_def st'_def b_def)
    show "self_points st' \<notin> insert b U"
      using assms by (auto simp: ramp_inv_def st'_def b_def)
    show "denotation r n = Inr (value_of st' v)" if "cache st' n = Some v" for n v
    proof -
      have c: "cache st n = Some v"
        using that by (simp add: st'_def)
      then have "denotation r n = Inr (value_of st v)"
        using assms unfolding ramp_inv_def by blast
      then show ?thesis
        using keep [OF c] by simp
    qed
    show "a < next_addr st'" if "cache st' n = Some v" and "v = Ref a" for n v a
      using lt [of n a] that by (simp add: st'_def b_def)
    show "a \<notin> insert b U" if "cache st' n = Some v" and "v = Ref a" for n v a
    proof -
      have c: "cache st n = Some (Ref a)"
        using that by (simp add: st'_def)
      then have "a \<notin> U"
        using assms unfolding ramp_inv_def by blast
      then show ?thesis
        using lt [OF c] by (auto simp: b_def)
    qed
    show "a < next_addr st'" if "a \<in> insert b U" for a
      using that assms by (auto simp: ramp_inv_def st'_def b_def)
  qed
  moreover have "value_of st' (Ref b) = DSet obj"
    by (simp add: value_of_def st'_def)
  ultimately show ?thesis
    unfolding out returns_def using inv_weaken by auto
qed

section \<open>The decorators keep the invariant\<close>

lemma value_of_cache_update [simp]: "value_of (st\<lparr>cache := c\<rparr>) v = value_of st v"
  by (cases v) (simp_all add: value_of_def)

lemma value_of_DSet: "value_of st v = DSet obj \<Longrightarrow> \<exists>a. v = Ref a \<and> objects st a = obj"
  by (cases v) (simp_all add: value_of_def)

lemma copy_of_returns:
  assumes "ramp_inv r U st" and "value_of st v = DSet obj"
  shows "returns r U (Inr (DSet obj)) (copy_of v st)"
proof -
  obtain a where "v = Ref a" "objects st a = obj"
    using value_of_DSet [OF assms(2)] by blast
  then show ?thesis
    using alloc_returns [OF assms(1), of obj] by (simp add: copy_of_def)
qed

lemma inv_cache_update:
  assumes "ramp_inv r U st" and "denotation r n = Inr (value_of st v)"
    and "\<And>a. v = Ref a \<Longrightarrow> a \<notin> U \<and> ramp_inv r (insert a U) st"
  shows "ramp_inv r U (st\<lparr>cache := (cache st)(n \<mapsto> v)\<rparr>)"
proof -
  let ?st = "st\<lparr>cache := (cache st)(n \<mapsto> v)\<rparr>"
  have val: "value_of ?st w = value_of st w" for w
    by simp
  have new: "a < next_addr st \<and> a \<notin> U" if "v = Ref a" for a
    using assms(3) [OF that] by (auto simp: ramp_inv_def)
  show ?thesis
    unfolding ramp_inv_def
  proof (intro conjI allI impI ballI)
    show "self_heights ?st = height_at r"
      using assms(1) by (simp add: ramp_inv_def)
    show "objects ?st (self_points ?st) = GridSet (ramp_points r)"
      using assms(1) by (simp add: ramp_inv_def)
    show "self_points ?st < next_addr ?st"
      using assms(1) by (simp add: ramp_inv_def)
    show "self_points ?st \<notin> U"
      using assms(1) by (simp add: ramp_inv_def)
    show "denotation r m = Inr (value_of ?st w)" if "cache ?st m = Some w" for m w
    proof (cases "m = n")
      case True
      then show ?thesis
        using that assms(2) val by simp
    next
      case False
      then have "cache st m = Some w"
        using that by simp
      then show ?thesis
        using assms(1) val unfolding ramp_inv_def by metis
    qed
    show "a < next_addr ?st" if "cache ?st m = Some w" and "w = Ref a" for m w a
    proof (cases "m = n")
      case True
      then show ?thesis
        using that new by simp
    next
      case False
      then have "cache st m = Some (Ref a)"
        using that by simp
      then show ?thesis
        using assms(1) unfolding ramp_inv_def by auto
    qed
    show "a \<notin> U" if "cache ?st m = Some w" and "w = Ref a" for m w a
    proof (cases "m = n")
      case True
      then show ?thesis
        using that new by simp
    next
      case False
      then have "cache st m = Some (Ref a)"
        using that by simp
      then show ?thesis
        using assms(1) unfolding ramp_inv_def by blast
    qed
    show "a < next_addr ?st" if "a \<in> U" for a
      using that assms(1) by (simp add: ramp_inv_def)
  qed
qed

lemma property_mutable_cache_returns:
  assumes "ramp_inv r U st"
    and "cache st n = None \<Longrightarrow> returns r U (denotation r n) (f st)"
    and "\<And>dv. denotation r n = Inr dv \<Longrightarrow> \<exists>obj. dv = DSet obj"
  shows "returns r U (denotation r n) (property_mutable_cache n f st)"
proof (cases "cache st n")
  case (Some v)
  have d: "denotation r n = Inr (value_of st v)"
    using assms(1) Some unfolding ramp_inv_def by blast
  then obtain obj where obj: "value_of st v = DSet obj"
    using assms(3) by blast
  show ?thesis
    using copy_of_returns [OF assms(1) obj] Some d obj
    by (simp add: property_mutable_cache_def)
next
  case None
  obtain res st1 where out: "f st = (res, st1)"
    by (cases "f st")
  have ret: "returns r U (denotation r n) (res, st1)"
    using assms(2) [OF None] out by simp
  show ?thesis
  proof (cases "denotation r n")
    case (Inl e)
    then have "res = Inl e" "ramp_inv r U st1"
      using ret by (simp_all add: returns_def)
    then show ?thesis
      using None out Inl by (simp add: property_mutable_cache_def returns_def)
  next
    case (Inr dv)
    then obtain v where v: "res = Inr v" "value_of st1 v = dv"
      "\<And>a. v = Ref a \<Longrightarrow> a \<notin> U \<and> ramp_inv r (insert a U) st1"
      and i1: "ramp_inv r U st1"
      using ret by (auto simp: returns_def)
    obtain obj where obj: "dv = DSet obj"
      using assms(3) [OF Inr] by blast
    let ?st2 = "st1\<lparr>cache := (cache st1)(n \<mapsto> v)\<rparr>"
    have i2: "ramp_inv r U ?st2"
      using inv_cache_update [OF i1 _ v(3)] Inr v(2) by simp
    have "value_of ?st2 v = DSet obj"
      using v(2) obj by simp
    then have "returns r U (Inr (DSet obj)) (copy_of v ?st2)"
      by (rule copy_of_returns [OF i2])
    then show ?thesis
      using None out v(1) Inr obj by (simp add: property_mutable_cache_def)
  qed
qed

lemma property_immutable_cache_returns:
  assumes "ramp_inv r U st"
    and "cache st n = None \<Longrightarrow> returns r U (denotation r n) (f st)"
    and "\<And>dv. denotation r n = Inr dv \<Longrightarrow> \<forall>obj. dv \<noteq> DSet obj"
  shows "returns r U (denotation r n) (property_immutable_cache n f st)"
proof (cases "cache st n")
  case (Some v)
  have d: "denotation r n = Inr (value_of st v)"
    using assms(1) Some unfolding ramp_inv_def by blast
  then have "\<forall>a. v \<noteq> Ref a"
    using assms(3) [OF d] by (auto simp: value_of_def)
  then show ?thesis
    using Some d assms(1) by (simp add: property_immutable_cache_def returns_def)
next
  case None
  obtain res st1 where out: "f st = (res, st1)"
    by (cases "f st")
  have ret: "returns r U (denotation r n) (res, st1)"
    using assms(2) [OF None] out by simp
  show ?thesis
  proof (cases "denotation r n")
    case (Inl e)
    then have "res = Inl e" "ramp_inv r U st1"
      using ret by (simp_all add: returns_def)
    then show ?thesis
      using None out Inl by (simp add: property_immutable_cache_def returns_def)
  next
    case (Inr dv)
    then obtain v where v: "res = Inr v" "value_of st1 v = dv"
      and i1: "ramp_inv r U st1"
      using ret by (auto simp: returns_def)
    have nr: "\<forall>a. v \<noteq> Ref a"
      using assms(3) [OF Inr] v(2) by (auto simp: value_of_def)
    let ?st2 = "st1\<lparr>cache := (cache st1)(n \<mapsto> v)\<rparr>"
    have i2: "ramp_inv r U ?st2"
      using inv_cache_update [OF i1, of n v] Inr v(2) nr by simp
    moreover have "value_of ?st2 v = dv"
      using v(2) by simp
    ultimately show ?thesis
      using None out v(1) Inr nr by (simp add: property_immutable_cache_def returns_def)
  qed
qed

section \<open>Sequencing and reading\<close>

lemma bind_fail:
  assumes "returns r U (Inl e) (m st)"
  shows "returns r U (Inl e) (bind m k st)"
proof -
  obtain res st1 where out: "m st = (res, st1)"
    by (cases "m st")
  then have "res = Inl e" "ramp_inv r U st1"
    using assms by (simp_all add: returns_def)
  then show ?thesis
    using out by (simp add: bind_def returns_def)
qed

lemma bind_ok:
  assumes "returns r U (Inr dv) (m st)"
    and "\<And>v st1. ramp_inv r U st1 \<Longrightarrow> value_of st1 v = dv \<Longrightarrow>
           (\<And>a. v = Ref a \<Longrightarrow> a \<notin> U \<and> ramp_inv r (insert a U) st1) \<Longrightarrow>
           returns r U d (k v st1)"
  shows "returns r U d (bind m k st)"
proof -
  obtain res st1 where out: "m st = (res, st1)"
    by (cases "m st")
  then obtain v where v: "res = Inr v" "value_of st1 v = dv"
    "\<And>a. v = Ref a \<Longrightarrow> a \<notin> U \<and> ramp_inv r (insert a U) st1"
    and i1: "ramp_inv r U st1"
    using assms(1) by (auto simp: returns_def)
  show ?thesis
    using assms(2) [OF i1 v(2) v(3)] out v(1) by (simp add: bind_def)
qed

lemma grid_of_value: "value_of st v = DSet (GridSet ps) \<Longrightarrow> grid_of v st = (Inr ps, st)"
  by (cases v) (auto simp: value_of_def grid_of_def)

lemma points_of_value: "value_of st v = DSet (PointSet qs) \<Longrightarrow> points_of v st = (Inr qs, st)"
  by (cases v) (auto simp: value_of_def points_of_def)

lemma point_of_value: "value_of st v = DPoint p \<Longrightarrow> point_of v st = (Inr p, st)"
  by (cases v) (auto simp: value_of_def point_of_def)

lemma bool_of_value: "value_of st v = DBool b \<Longrightarrow> bool_of v st = (Inr b, st)"
  by (cases v) (auto simp: value_of_def bool_of_def)

lemma bind_grid_of:
  "value_of st v = DSet (GridSet ps) \<Longrightarrow> bind (grid_of v) k st = k ps st"
  by (simp add: bind_def grid_of_value)

lemma bind_points_of:
  "value_of st v = DSet (PointSet qs) \<Longrightarrow> bind (points_of v) k st = k qs st"
  by (simp add: bind_def points_of_value)

lemma bind_point_of:
  "value_of st v = DPoint p \<Longrightarrow> bind (point_of v) k st = k p st"
  by (simp add: bind_def point_of_value)

lemma bind_bool_of:
  "value_of st v = DBool b \<Longrightarrow> bind (bool_of v) k st = k b st"
  by (simp add: bind_def bool_of_value)

lemma ret_returns:
  "ramp_inv r U st \<Longrightarrow> value_of st v = dv \<Longrightarrow> \<forall>a. v \<noteq> Ref a \<Longrightarrow> returns r U (Inr dv) (ret v st)"
  by (simp add: ret_def returns_def)

lemma raise_returns: "ramp_inv r U st \<Longrightarrow> returns r U (Inl e) (raise e st)"
  by (simp add: raise_def returns_def)

text \<open>An action of any result type yields \<open>x\<close>: it keeps the invariant and its outcome is \<open>x\<close>.\<close>

definition yields :: "ramp \<Rightarrow> addr set \<Rightarrow> error + 'a \<Rightarrow> (error + 'a) \<times> ramp_object \<Rightarrow> bool" where
  "yields r U x out \<longleftrightarrow> ramp_inv r U (snd out) \<and> fst out = x"

lemma bind_returns_ok:
  assumes "returns r U (Inr dv) (m st)"
    and "\<And>v st1. ramp_inv r U st1 \<Longrightarrow> value_of st1 v = dv \<Longrightarrow>
           (\<And>a. v = Ref a \<Longrightarrow> a \<notin> U \<and> ramp_inv r (insert a U) st1) \<Longrightarrow> Q (k v st1)"
  shows "Q (bind m k st)"
proof -
  obtain res st1 where out: "m st = (res, st1)"
    by (cases "m st")
  then obtain v where v: "res = Inr v" "value_of st1 v = dv"
    "\<And>a. v = Ref a \<Longrightarrow> a \<notin> U \<and> ramp_inv r (insert a U) st1"
    and i1: "ramp_inv r U st1"
    using assms(1) by (auto simp: returns_def)
  show ?thesis
    using assms(2) [OF i1 v(2) v(3)] out v(1) by (simp add: bind_def)
qed

lemma bind_returns_fail:
  assumes "returns r U (Inl e) (m st)"
    and "\<And>st1. ramp_inv r U st1 \<Longrightarrow> Q (Inl e, st1)"
  shows "Q (bind m k st)"
proof -
  obtain res st1 where out: "m st = (res, st1)"
    by (cases "m st")
  then have "res = Inl e" "ramp_inv r U st1"
    using assms(1) by (simp_all add: returns_def)
  then show ?thesis
    using assms(2) out by (simp add: bind_def)
qed

lemma bind_yields_ok:
  assumes "yields r U (Inr x) (m st)"
    and "\<And>st1. ramp_inv r U st1 \<Longrightarrow> Q (k x st1)"
  shows "Q (bind m k st)"
proof -
  obtain res st1 where out: "m st = (res, st1)"
    by (cases "m st")
  then have "res = Inr x" "ramp_inv r U st1"
    using assms(1) by (simp_all add: yields_def)
  then show ?thesis
    using assms(2) out by (simp add: bind_def)
qed

lemma bind_yields_fail:
  assumes "yields r U (Inl e) (m st)"
    and "\<And>st1. ramp_inv r U st1 \<Longrightarrow> Q (Inl e, st1)"
  shows "Q (bind m k st)"
proof -
  obtain res st1 where out: "m st = (res, st1)"
    by (cases "m st")
  then have "res = Inl e" "ramp_inv r U st1"
    using assms(1) by (simp_all add: yields_def)
  then show ?thesis
    using assms(2) out by (simp add: bind_def)
qed

lemma returns_Inl: "ramp_inv r U st \<Longrightarrow> returns r U (Inl e) (Inl e, st)"
  by (simp add: returns_def)

lemma returns_point: "ramp_inv r U st \<Longrightarrow> returns r U (Inr (DPoint p)) (Inr (PPoint p), st)"
  by (simp add: returns_def value_of_def)

lemma returns_bool: "ramp_inv r U st \<Longrightarrow> returns r U (Inr (DBool b)) (Inr (PBool b), st)"
  by (simp add: returns_def value_of_def)

section \<open>Each accessor returns what it denotes\<close>

lemma points_property_returns:
  assumes "ramp_inv r U st"
  shows "returns r U (Inr (DSet (GridSet (ramp_points r)))) (points_property st)"
proof -
  have d: "denotation r ''points'' = Inr (DSet (GridSet (ramp_points r)))"
    by (simp add: denotation_def grid_value_def)
  have "returns r U (denotation r ''points'') (points_property st)"
    unfolding points_property_def
  proof (rule property_mutable_cache_returns [OF assms])
    have "value_of st (Ref (self_points st)) = DSet (GridSet (ramp_points r))"
      using assms by (simp add: ramp_inv_def value_of_def)
    then show "returns r U (denotation r ''points'') (copy_of (Ref (self_points st)) st)"
      unfolding d by (rule copy_of_returns [OF assms])
  qed (simp add: d)
  then show ?thesis
    unfolding d .
qed

lemma upper_property_returns:
  assumes "ramp_inv r U st"
  shows "returns r U (Inr (DSet (GridSet (upper r)))) (upper_property st)"
proof -
  have d: "denotation r ''upper'' = Inr (DSet (GridSet (upper r)))"
    by (simp add: denotation_def grid_value_def)
  have "returns r U (denotation r ''upper'') (upper_property st)"
    unfolding upper_property_def
  proof (rule property_mutable_cache_returns [OF assms])
    have v: "value_of st (Ref (self_points st)) = DSet (GridSet (ramp_points r))"
      and h: "self_heights st = height_at r"
      using assms by (simp_all add: ramp_inv_def value_of_def)
    show "returns r U (denotation r ''upper'')
       (bind (grid_of (Ref (self_points st)))
          (\<lambda>ps. alloc (GridSet (upper_loop (self_heights st) ps (- 10000) []))) st)"
      unfolding d bind_grid_of [OF v] h upper_def [symmetric]
      by (rule alloc_returns [OF assms])
  qed (simp add: d)
  then show ?thesis
    unfolding d .
qed

lemma lower_property_returns:
  assumes "ramp_inv r U st"
  shows "returns r U (Inr (DSet (GridSet (lower r)))) (lower_property st)"
proof -
  have d: "denotation r ''lower'' = Inr (DSet (GridSet (lower r)))"
    by (simp add: denotation_def grid_value_def)
  have "returns r U (denotation r ''lower'') (lower_property st)"
    unfolding lower_property_def
  proof (rule property_mutable_cache_returns [OF assms])
    have v: "value_of st (Ref (self_points st)) = DSet (GridSet (ramp_points r))"
      and h: "self_heights st = height_at r"
      using assms by (simp_all add: ramp_inv_def value_of_def)
    show "returns r U (denotation r ''lower'')
       (bind (grid_of (Ref (self_points st)))
          (\<lambda>ps. alloc (GridSet (lower_loop (self_heights st) ps 10000 []))) st)"
      unfolding d bind_grid_of [OF v] h lower_def [symmetric]
      by (rule alloc_returns [OF assms])
  qed (simp add: d)
  then show ?thesis
    unfolding d .
qed

lemma top_center_property_returns:
  assumes "ramp_inv r U st"
  shows "returns r U (point_value (top_center r)) (top_center_property st)"
proof -
  have d: "denotation r ''top_center'' = point_value (top_center r)"
    by (simp add: denotation_def)
  have "returns r U (denotation r ''top_center'') (top_center_property st)"
    unfolding top_center_property_def
  proof (rule property_immutable_cache_returns [OF assms])
    show "returns r U (denotation r ''top_center'')
       (bind upper_property (\<lambda>v. bind (grid_of v) (\<lambda>up.
          let len = length up in
          if len = 0 then raise ZeroDivisionError
          else ret (PPoint (real_of_int (sum_list (map fst up)) / real len,
                            real_of_int (sum_list (map snd up)) / real len)))) st)"
    proof (rule bind_returns_ok [where m = upper_property and st = st, OF upper_property_returns [OF assms]])
      fix v st1
      assume i1: "ramp_inv r U st1" and v: "value_of st1 v = DSet (GridSet (upper r))"
      show "returns r U (denotation r ''top_center'')
         (bind (grid_of v) (\<lambda>up.
          let len = length up in
          if len = 0 then raise ZeroDivisionError
          else ret (PPoint (real_of_int (sum_list (map fst up)) / real len,
                            real_of_int (sum_list (map snd up)) / real len))) st1)"
        unfolding bind_grid_of [OF v] d
        using i1
        by (simp add: top_center_def point_value_def Let_def raise_def ret_def
            returns_Inl returns_point)
    qed
  qed (auto simp: d point_value_def split: sum.splits)
  then show ?thesis
    unfolding d .
qed

lemma bottom_center_property_returns:
  assumes "ramp_inv r U st"
  shows "returns r U (point_value (bottom_center r)) (bottom_center_property st)"
proof -
  have d: "denotation r ''bottom_center'' = point_value (bottom_center r)"
    by (simp add: denotation_def)
  have "returns r U (denotation r ''bottom_center'') (bottom_center_property st)"
    unfolding bottom_center_property_def
  proof (rule property_immutable_cache_returns [OF assms])
    show "returns r U (denotation r ''bottom_center'')
       (bind lower_property (\<lambda>v. bind (grid_of v) (\<lambda>lo.
          let len = length lo in
          if len = 0 then raise ZeroDivisionError
          else ret (PPoint (real_of_int (sum_list (map fst lo)) / real len,
                            real_of_int (sum_list (map snd lo)) / real len)))) st)"
    proof (rule bind_returns_ok [where m = lower_property and st = st, OF lower_property_returns [OF assms]])
      fix v st1
      assume i1: "ramp_inv r U st1" and v: "value_of st1 v = DSet (GridSet (lower r))"
      show "returns r U (denotation r ''bottom_center'')
         (bind (grid_of v) (\<lambda>lo.
          let len = length lo in
          if len = 0 then raise ZeroDivisionError
          else ret (PPoint (real_of_int (sum_list (map fst lo)) / real len,
                            real_of_int (sum_list (map snd lo)) / real len))) st1)"
        unfolding bind_grid_of [OF v] d
        using i1
        by (simp add: bottom_center_def point_value_def Let_def raise_def ret_def
            returns_Inl returns_point)
    qed
  qed (auto simp: d point_value_def split: sum.splits)
  then show ?thesis
    unfolding d .
qed

lemma yields_Inl: "ramp_inv r U st \<Longrightarrow> yields r U (Inl e) (Inl e, st)"
  by (simp add: yields_def)

lemma yields_ret: "ramp_inv r U st \<Longrightarrow> yields r U (Inr x) (ret x st)"
  by (simp add: yields_def ret_def)

lemma keys_of_upper_yields:
  assumes "ramp_inv r U st"
  shows "yields r U
    (keys_of (\<lambda>x. case bottom_center r of
                    Inl e \<Rightarrow> Inl e
                  | Inr bc \<Rightarrow> Inr (distance_squared (to_point2 x) bc)) xs)
    (keys_of_upper xs st)"
  using assms
proof (induction xs arbitrary: st)
  case Nil
  then show ?case
    by (simp add: yields_ret)
next
  case (Cons x xs)
  let ?key = "\<lambda>x. case bottom_center r of
                    Inl e \<Rightarrow> Inl e
                  | Inr bc \<Rightarrow> Inr (distance_squared (to_point2 x) bc)"
  show ?case
  proof (cases "bottom_center r")
    case (Inl e)
    have k: "keys_of ?key (x # xs) = Inl e"
      by (simp add: Inl)
    have b: "returns r U (Inl e) (bottom_center_property st)"
      using bottom_center_property_returns [OF Cons.prems] by (simp add: Inl point_value_def)
    show ?thesis
      unfolding k keys_of_upper.simps
      by (rule bind_returns_fail [where m = bottom_center_property and st = st, OF b])
         (rule yields_Inl)
  next
    case (Inr bc)
    have b: "returns r U (Inr (DPoint bc)) (bottom_center_property st)"
      using bottom_center_property_returns [OF Cons.prems] by (simp add: Inr point_value_def)
    show ?thesis
      unfolding keys_of_upper.simps
    proof (rule bind_returns_ok [where m = bottom_center_property and st = st, OF b])
      fix v st1
      assume i1: "ramp_inv r U st1" and v: "value_of st1 v = DPoint bc"
      show "yields r U (keys_of ?key (x # xs))
         (bind (point_of v) (\<lambda>bc. bind (keys_of_upper xs)
            (\<lambda>ks. ret (distance_squared (to_point2 x) bc # ks))) st1)"
        unfolding bind_point_of [OF v]
      proof (cases "keys_of ?key xs")
        case (Inl e)
        have k: "keys_of ?key (x # xs) = Inl e"
          using Inl by (simp add: Inr)
        have y: "yields r U (Inl e) (keys_of_upper xs st1)"
          using Cons.IH [OF i1] Inl by simp
        show "yields r U (keys_of ?key (x # xs))
           (bind (keys_of_upper xs) (\<lambda>ks. ret (distance_squared (to_point2 x) bc # ks)) st1)"
          unfolding k
          by (rule bind_yields_fail [where m = "keys_of_upper xs" and st = st1, OF y])
             (rule yields_Inl)
      next
        case ks: (Inr ks)
        have k: "keys_of ?key (x # xs) = Inr (distance_squared (to_point2 x) bc # ks)"
          using ks by (simp add: Inr)
        have y: "yields r U (Inr ks) (keys_of_upper xs st1)"
          using Cons.IH [OF i1] ks by simp
        show "yields r U (keys_of ?key (x # xs))
           (bind (keys_of_upper xs) (\<lambda>ks. ret (distance_squared (to_point2 x) bc # ks)) st1)"
          unfolding k
          by (rule bind_yields_ok [where m = "keys_of_upper xs" and st = st1, OF y])
             (rule yields_ret)
      qed
    qed
  qed
qed

lemma upper2_for_ramp_wall_property_returns:
  assumes "ramp_inv r U st"
  shows "returns r U (grid_value (upper2_for_ramp_wall r)) (upper2_for_ramp_wall_property st)"
proof -
  let ?key = "\<lambda>x. case bottom_center r of
                    Inl e \<Rightarrow> Inl e
                  | Inr bc \<Rightarrow> Inr (distance_squared (to_point2 x) bc)"
  have d: "denotation r ''upper2_for_ramp_wall'' = grid_value (upper2_for_ramp_wall r)"
    by (simp add: denotation_def)
  have "returns r U (denotation r ''upper2_for_ramp_wall'') (upper2_for_ramp_wall_property st)"
    unfolding upper2_for_ramp_wall_property_def
  proof (rule property_mutable_cache_returns [OF assms], goal_cases)
    case 1
    show ?case
    proof (rule bind_returns_ok [where m = upper_property and st = st,
          OF upper_property_returns [OF assms]], goal_cases)
      case (1 v1 st1)
      show ?case
      proof (cases "length (upper r) > 5")
        case True
        then have "denotation r ''upper2_for_ramp_wall'' = Inr (DSet (GridSet []))"
          by (simp add: d upper2_for_ramp_wall_def grid_value_def)
        then show ?thesis
          using True alloc_returns [OF 1(1), of "GridSet []"]
          by (simp add: bind_grid_of [OF 1(2)])
      next
        case False
        have "returns r U (denotation r ''upper2_for_ramp_wall'')
           (bind upper_property (\<lambda>v2. bind (grid_of v2) (\<lambda>up2.
              bind (keys_of_upper up2) (\<lambda>ks.
                alloc (GridSet (pop_to_two
                  (map snd (sort_key (\<lambda>kx. - fst kx) (zip ks up2)))))))) st1)"
        proof (rule bind_returns_ok [where m = upper_property and st = st1,
              OF upper_property_returns [OF 1(1)]], goal_cases)
          case (1 v2 st2)
          show ?case
          proof (cases "keys_of ?key (upper r)")
            case (Inl e)
            have dd: "denotation r ''upper2_for_ramp_wall'' = Inl e"
              using False Inl
              by (simp add: d upper2_for_ramp_wall_def sorted_reverse_def grid_value_def)
            have y: "yields r U (Inl e) (keys_of_upper (upper r) st2)"
              using keys_of_upper_yields [OF 1(1), of "upper r"] Inl by simp
            show ?thesis
              unfolding dd bind_grid_of [OF 1(2)]
              by (rule bind_yields_fail [where m = "keys_of_upper (upper r)" and st = st2, OF y])
                 (rule returns_Inl)
          next
            case (Inr ks)
            have dd: "denotation r ''upper2_for_ramp_wall'' =
                Inr (DSet (GridSet (pop_to_two
                  (map snd (sort_key (\<lambda>kx. - fst kx) (zip ks (upper r)))))))"
              using False Inr
              by (simp add: d upper2_for_ramp_wall_def sorted_reverse_def grid_value_def)
            have y: "yields r U (Inr ks) (keys_of_upper (upper r) st2)"
              using keys_of_upper_yields [OF 1(1), of "upper r"] Inr by simp
            show ?thesis
              unfolding dd bind_grid_of [OF 1(2)]
              by (rule bind_yields_ok [where m = "keys_of_upper (upper r)" and st = st2, OF y])
                 (rule alloc_returns)
          qed
        qed
        then show ?thesis
          using False by (simp add: bind_grid_of [OF 1(2)])
      qed
    qed
  next
    case (2 dv)
    then show ?case
      by (auto simp: d grid_value_def split: sum.splits)
  qed
  then show ?thesis
    unfolding d .
qed

section \<open>The wall-placement accessors on the store\<close>

lemma set_pop_two:
  assumes "value_of st v = DSet (GridSet [a, b])"
    and "\<And>c. v = Ref c \<Longrightarrow> c \<notin> U \<and> ramp_inv r (insert c U) st"
    and "\<And>st'. ramp_inv r U st' \<Longrightarrow> Q (k a b st')"
  shows "Q (bind (set_pop v) (\<lambda>x. bind (set_pop v) (\<lambda>y. k x y)) st)"
proof -
  obtain c where c: "v = Ref c" "objects st c = GridSet [a, b]"
    using value_of_DSet [OF assms(1)] by blast
  define st1 where "st1 = st\<lparr>objects := (objects st)(c := GridSet [b])\<rparr>"
  define st2 where "st2 = st1\<lparr>objects := (objects st1)(c := GridSet [])\<rparr>"
  have p1: "set_pop v st = (Inr a, st1)"
    by (simp add: set_pop_def c st1_def)
  have p2: "set_pop v st1 = (Inr b, st2)"
    by (simp add: set_pop_def c st1_def st2_def)
  have "ramp_inv r (insert c U) st"
    using assms(2) [OF c(1)] by simp
  then have "ramp_inv r (insert c U) st1"
    unfolding st1_def by (rule inv_mutate) simp
  then have "ramp_inv r (insert c U) st2"
    unfolding st2_def by (rule inv_mutate) simp
  then have "ramp_inv r U st2"
    by (rule inv_weaken)
  then have "Q (k a b st2)"
    by (rule assms(3))
  then show ?thesis
    by (simp add: bind_def p1 p2)
qed

lemma wall_guard:
  assumes "ramp_inv r U st"
    and "\<And>e st1. upper2_for_ramp_wall r = Inl e \<Longrightarrow> ramp_inv r U st1 \<Longrightarrow> Q (Inl e, st1)"
    and "\<And>u st1. upper2_for_ramp_wall r = Inr u \<Longrightarrow> length u \<noteq> 2 \<Longrightarrow> ramp_inv r U st1 \<Longrightarrow>
           Q (Inl DegenerateRamp, st1)"
    and "\<And>a b st1. upper2_for_ramp_wall r = Inr [a, b] \<Longrightarrow> ramp_inv r U st1 \<Longrightarrow> Q (k st1)"
  shows "Q (bind upper2_for_ramp_wall_property
            (\<lambda>v. bind (grid_of v) (\<lambda>u. if length u = 2 then k else raise DegenerateRamp)) st)"
proof (cases "upper2_for_ramp_wall r")
  case (Inl e)
  have "returns r U (Inl e) (upper2_for_ramp_wall_property st)"
    using upper2_for_ramp_wall_property_returns [OF assms(1)] by (simp add: Inl grid_value_def)
  then show ?thesis
    by (rule bind_returns_fail [where m = upper2_for_ramp_wall_property and st = st])
       (rule assms(2) [OF Inl])
next
  case (Inr u)
  have "returns r U (Inr (DSet (GridSet u))) (upper2_for_ramp_wall_property st)"
    using upper2_for_ramp_wall_property_returns [OF assms(1)] by (simp add: Inr grid_value_def)
  then show ?thesis
  proof (rule bind_returns_ok [where m = upper2_for_ramp_wall_property and st = st], goal_cases)
    case (1 v st1)
    show ?case
    proof (cases "length u = 2")
      case True
      then obtain a b where "u = [a, b]"
        by (auto simp: length_Suc_conv numeral_2_eq_2)
      then have "Q (k st1)"
        using assms(4) Inr 1(1) by blast
      then show ?thesis
        using True by (simp add: bind_grid_of [OF 1(2)])
    next
      case False
      then have "Q (Inl DegenerateRamp, st1)"
        using assms(3) Inr 1(1) by blast
      then show ?thesis
        using False by (simp add: bind_grid_of [OF 1(2)] raise_def)
    qed
  qed
qed

lemma wall_points:
  assumes "ramp_inv r U st" and "upper2_for_ramp_wall r = Inr [a, b]"
    and "\<And>st'. ramp_inv r U st' \<Longrightarrow> Q (k a b st')"
  shows "Q (bind upper2_for_ramp_wall_property
            (\<lambda>points. bind (set_pop points) (\<lambda>x. bind (set_pop points) (\<lambda>y. k x y))) st)"
proof -
  have "returns r U (Inr (DSet (GridSet [a, b]))) (upper2_for_ramp_wall_property st)"
    using upper2_for_ramp_wall_property_returns [OF assms(1)] by (simp add: assms(2) grid_value_def)
  then show ?thesis
  proof (rule bind_returns_ok [where m = upper2_for_ramp_wall_property and st = st], goal_cases)
    case (1 v st1)
    show ?case
      by (rule set_pop_two [where Q = Q and k = k and U = U and r = r, OF 1(2) 1(3) assms(3)])
  qed
qed

lemma not_pair: "length u \<noteq> 2 \<Longrightarrow> (case u of [a, b] \<Rightarrow> f a b | _ \<Rightarrow> g) = g"
  by (auto split: list.splits)

text \<open>The part of \<open>barracks_in_middle\<close> and \<open>depot_in_middle\<close> after the two \<open>pop\<close>s.\<close>

lemma middle_of_circles:
  assumes "ramp_inv r U st"
    and "d = (case circle_intersection p1 p2 rad of
                Inl e \<Rightarrow> Inl e
              | Inr intersects \<Rightarrow>
                  (case lower r of
                     [] \<Rightarrow> Inl StopIteration
                   | anyLowerPoint # _ \<Rightarrow>
                       max_key (\<lambda>p. distance_squared p (to_point2 anyLowerPoint)) intersects))"
  shows "returns r U (point_value d)
    ((case circle_intersection p1 p2 rad of
        Inl e \<Rightarrow> raise e
      | Inr intersects \<Rightarrow>
          bind lower_property (\<lambda>vl. bind (grid_of vl) (\<lambda>lo.
            case lo of
              [] \<Rightarrow> raise StopIteration
            | anyLowerPoint # _ \<Rightarrow>
                (case max_key (\<lambda>p. distance_squared p (to_point2 anyLowerPoint)) intersects of
                   Inl e \<Rightarrow> raise e
                 | Inr m \<Rightarrow> ret (PPoint m))))) st)"
proof (cases "circle_intersection p1 p2 rad")
  case (Inl e)
  then show ?thesis
    using assms by (simp add: point_value_def raise_def returns_Inl)
next
  case (Inr intersects)
  have "returns r U (point_value d)
     (bind lower_property (\<lambda>vl. bind (grid_of vl) (\<lambda>lo.
            case lo of
              [] \<Rightarrow> raise StopIteration
            | anyLowerPoint # _ \<Rightarrow>
                (case max_key (\<lambda>p. distance_squared p (to_point2 anyLowerPoint)) intersects of
                   Inl e \<Rightarrow> raise e
                 | Inr m \<Rightarrow> ret (PPoint m)))) st)"
  proof (rule bind_returns_ok [where m = lower_property and st = st,
        OF lower_property_returns [OF assms(1)]], goal_cases)
    case (1 vl st1)
    show ?case
      using 1(1) assms(2) Inr
      by (auto simp: bind_grid_of [OF 1(2)] point_value_def raise_def ret_def returns_Inl
          returns_point split: list.splits sum.splits)
  qed
  then show ?thesis
    by (simp add: Inr)
qed

lemma barracks_in_middle_property_returns:
  assumes "ramp_inv r U st"
  shows "returns r U (point_value (barracks_in_middle r)) (barracks_in_middle_property st)"
proof -
  have d: "denotation r ''barracks_in_middle'' = point_value (barracks_in_middle r)"
    by (simp add: denotation_def)
  have "returns r U (denotation r ''barracks_in_middle'') (barracks_in_middle_property st)"
    unfolding barracks_in_middle_property_def
  proof (rule property_immutable_cache_returns [OF assms], goal_cases)
    case 1
    show ?case
      unfolding d
    proof (rule wall_guard [OF assms], goal_cases)
      case (1 e st1)
      then show ?case
        by (simp add: barracks_in_middle_def point_value_def returns_Inl)
    next
      case (2 u st1)
      then show ?case
        by (simp add: barracks_in_middle_def point_value_def returns_Inl not_pair)
    next
      case (3 a b st1)
      show ?case
      proof (rule wall_points [OF 3(2) 3(1)], goal_cases)
        case (1 st2)
        show ?case
          unfolding Let_def
          by (rule middle_of_circles [OF 1])
             (simp add: barracks_in_middle_def 3(1) Let_def)
      qed
    qed
  next
    case (2 dv)
    then show ?case
      by (auto simp: d point_value_def split: sum.splits)
  qed
  then show ?thesis
    unfolding d .
qed

lemma depot_in_middle_property_returns:
  assumes "ramp_inv r U st"
  shows "returns r U (point_value (depot_in_middle r)) (depot_in_middle_property st)"
proof -
  have d: "denotation r ''depot_in_middle'' = point_value (depot_in_middle r)"
    by (simp add: denotation_def)
  have "returns r U (denotation r ''depot_in_middle'') (depot_in_middle_property st)"
    unfolding depot_in_middle_property_def
  proof (rule property_immutable_cache_returns [OF assms], goal_cases)
    case 1
    show ?case
      unfolding d
    proof (rule wall_guard [OF assms], goal_cases)
      case (1 e st1)
      then show ?case
        by (simp add: depot_in_middle_def point_value_def returns_Inl)
    next
      case (2 u st1)
      then show ?case
        by (simp add: depot_in_middle_def point_value_def returns_Inl not_pair)
    next
      case (3 a b st1)
      show ?case
      proof (rule wall_points [OF 3(2) 3(1)], goal_cases)
        case (1 st2)
        show ?case
          unfolding Let_def
          by (rule middle_of_circles [OF 1])
             (simp add: depot_in_middle_def 3(1) Let_def)
      qed
    qed
  next
    case (2 dv)
    then show ?case
      by (auto simp: d point_value_def split: sum.splits)
  qed
  then show ?thesis
    unfolding d .
qed

lemma corner_depots_property_returns:
  assumes "ramp_inv r U st"
  shows "returns r U (points_value (corner_depots r)) (corner_depots_property st)"
proof -
  have d: "denotation r ''corner_depots'' = points_value (corner_depots r)"
    by (simp add: denotation_def)
  have "returns r U (denotation r ''corner_depots'') (corner_depots_property st)"
    unfolding corner_depots_property_def
  proof (rule property_mutable_cache_returns [OF assms], goal_cases)
    case 1
    show ?case
      unfolding d
    proof (rule wall_guard [OF assms], goal_cases)
      case (1 e st1)
      then show ?case
        by (simp add: corner_depots_def points_value_def returns_Inl)
    next
      case (2 u st1)
      then show ?case
        by (simp add: corner_depots_def points_value_def returns_Inl not_pair)
    next
      case (3 a b st1)
      show ?case
      proof (rule wall_points [OF 3(2) 3(1)], goal_cases)
        case (1 st2)
        let ?p1 = "offset (to_point2 a) (x_offset, y_offset)"
        let ?p2 = "offset (to_point2 b) (x_offset, y_offset)"
        let ?center = "towards ?p1 ?p2 (distance_to ?p1 ?p2 / 2)"
        have "returns r U (points_value (corner_depots r))
           (bind depot_in_middle_property (\<lambda>vd. bind (point_of vd) (\<lambda>depotPosition.
                     case circle_intersection ?center depotPosition (sqrt 5) of
                       Inl e \<Rightarrow> raise e
                     | Inr intersects \<Rightarrow> alloc (PointSet intersects))) st2)"
        proof (cases "depot_in_middle r")
          case (Inl e)
          have f: "returns r U (Inl e) (depot_in_middle_property st2)"
            using depot_in_middle_property_returns [OF 1] by (simp add: Inl point_value_def)
          have c: "points_value (corner_depots r) = Inl e"
            by (simp add: corner_depots_def 3(1) Inl Let_def points_value_def)
          show ?thesis
            unfolding c
            by (rule bind_returns_fail [where m = depot_in_middle_property and st = st2, OF f])
               (rule returns_Inl)
        next
          case (Inr depotPosition)
          have f: "returns r U (Inr (DPoint depotPosition)) (depot_in_middle_property st2)"
            using depot_in_middle_property_returns [OF 1] by (simp add: Inr point_value_def)
          show ?thesis
          proof (rule bind_returns_ok [where m = depot_in_middle_property and st = st2, OF f],
              goal_cases)
            case (1 vd st3)
            show ?case
              using 1(1) alloc_returns [OF 1(1)]
              by (auto simp: bind_point_of [OF 1(2)] corner_depots_def 3(1) Inr Let_def
                  points_value_def raise_def returns_Inl split: sum.splits)
          qed
        qed
        then show ?case
          unfolding Let_def .
      qed
    qed
  next
    case (2 dv)
    then show ?case
      by (auto simp: d points_value_def split: sum.splits)
  qed
  then show ?thesis
    unfolding d .
qed

lemma barracks_can_fit_addon_property_returns:
  assumes "ramp_inv r U st"
  shows "returns r U (bool_value (barracks_can_fit_addon r)) (barracks_can_fit_addon_property st)"
proof -
  have d: "denotation r ''barracks_can_fit_addon'' = bool_value (barracks_can_fit_addon r)"
    by (simp add: denotation_def)
  have "returns r U (denotation r ''barracks_can_fit_addon'') (barracks_can_fit_addon_property st)"
    unfolding barracks_can_fit_addon_property_def
  proof (rule property_immutable_cache_returns [OF assms], goal_cases)
    case 1
    show ?case
      unfolding d
    proof (rule wall_guard [OF assms], goal_cases)
      case (1 e st1)
      then show ?case
        by (simp add: barracks_can_fit_addon_def bool_value_def returns_Inl)
    next
      case (2 u st1)
      then show ?case
        by (simp add: barracks_can_fit_addon_def bool_value_def returns_Inl not_pair)
    next
      case (3 a b st1)
      show ?case
      proof (cases "barracks_in_middle r")
        case (Inl e)
        have f: "returns r U (Inl e) (barracks_in_middle_property st1)"
          using barracks_in_middle_property_returns [OF 3(2)] by (simp add: Inl point_value_def)
        have c: "bool_value (barracks_can_fit_addon r) = Inl e"
          by (simp add: barracks_can_fit_addon_def 3(1) Inl bool_value_def)
        show ?thesis
          unfolding c
          by (rule bind_returns_fail [where m = barracks_in_middle_property and st = st1, OF f])
             (rule returns_Inl)
      next
        case (Inr barracks)
        have f: "returns r U (Inr (DPoint barracks)) (barracks_in_middle_property st1)"
          using barracks_in_middle_property_returns [OF 3(2)] by (simp add: Inr point_value_def)
        show ?thesis
        proof (rule bind_returns_ok [where m = barracks_in_middle_property and st = st1, OF f],
            goal_cases)
          case (1 vb st2)
          show ?case
            unfolding bind_point_of [OF 1(2)]
          proof (cases "corner_depots r")
            case (Inl e)
            have g: "returns r U (Inl e) (corner_depots_property st2)"
              using corner_depots_property_returns [OF 1(1)] by (simp add: Inl points_value_def)
            have c: "bool_value (barracks_can_fit_addon r) = Inl e"
              by (simp add: barracks_can_fit_addon_def 3(1) Inr Inl bool_value_def)
            show "returns r U (bool_value (barracks_can_fit_addon r))
               (bind corner_depots_property (\<lambda>vc. bind (points_of vc) (\<lambda>depots.
                  case max_key fst depots of
                    Inl e \<Rightarrow> raise e
                  | Inr depot \<Rightarrow> ret (PBool (fst barracks + 1 > fst depot)))) st2)"
              unfolding c
              by (rule bind_returns_fail [where m = corner_depots_property and st = st2, OF g])
                 (rule returns_Inl)
          next
            case depots: (Inr depots)
            have g: "returns r U (Inr (DSet (PointSet depots))) (corner_depots_property st2)"
              using corner_depots_property_returns [OF 1(1)]
              by (simp add: depots points_value_def)
            show "returns r U (bool_value (barracks_can_fit_addon r))
               (bind corner_depots_property (\<lambda>vc. bind (points_of vc) (\<lambda>depots.
                  case max_key fst depots of
                    Inl e \<Rightarrow> raise e
                  | Inr depot \<Rightarrow> ret (PBool (fst barracks + 1 > fst depot)))) st2)"
            proof (rule bind_returns_ok [where m = corner_depots_property and st = st2, OF g],
                goal_cases)
              case (1 vc st3)
              show ?case
                using 1(1)
                by (auto simp: bind_points_of [OF 1(2)] barracks_can_fit_addon_def 3(1) Inr depots
                    bool_value_def raise_def ret_def returns_Inl returns_bool split: sum.splits)
            qed
          qed
        qed
      qed
    qed
  next
    case (2 dv)
    then show ?case
      by (auto simp: d bool_value_def split: sum.splits)
  qed
  then show ?thesis
    unfolding d .
qed

lemma barracks_correct_placement_property_returns:
  assumes "ramp_inv r U st"
  shows "returns r U (point_value (barracks_correct_placement r))
    (barracks_correct_placement_property st)"
proof -
  have d: "denotation r ''barracks_correct_placement'' = point_value (barracks_correct_placement r)"
    by (simp add: denotation_def)
  have "returns r U (denotation r ''barracks_correct_placement'')
    (barracks_correct_placement_property st)"
    unfolding barracks_correct_placement_property_def
  proof (rule property_immutable_cache_returns [OF assms], goal_cases)
    case 1
    show ?case
      unfolding d
    proof (rule wall_guard [OF assms], goal_cases)
      case (1 e st1)
      then show ?case
        by (simp add: barracks_correct_placement_def point_value_def returns_Inl)
    next
      case (2 u st1)
      then show ?case
        by (simp add: barracks_correct_placement_def point_value_def returns_Inl not_pair)
    next
      case (3 a b st1)
      show ?case
      proof (cases "barracks_can_fit_addon r")
        case (Inl e)
        have f: "returns r U (Inl e) (barracks_can_fit_addon_property st1)"
          using barracks_can_fit_addon_property_returns [OF 3(2)] by (simp add: Inl bool_value_def)
        have c: "point_value (barracks_correct_placement r) = Inl e"
          by (simp add: barracks_correct_placement_def 3(1) Inl point_value_def)
        show ?thesis
          unfolding c
          by (rule bind_returns_fail [where m = barracks_can_fit_addon_property and st = st1, OF f])
             (rule returns_Inl)
      next
        case (Inr fits)
        have f: "returns r U (Inr (DBool fits)) (barracks_can_fit_addon_property st1)"
          using barracks_can_fit_addon_property_returns [OF 3(2)] by (simp add: Inr bool_value_def)
        show ?thesis
        proof (rule bind_returns_ok [where m = barracks_can_fit_addon_property and st = st1, OF f],
            goal_cases)
          case (1 vf st2)
          show ?case
          proof (cases fits)
            case True
            have "point_value (barracks_correct_placement r) = point_value (barracks_in_middle r)"
              by (simp add: barracks_correct_placement_def 3(1) Inr True)
            then show ?thesis
              using True barracks_in_middle_property_returns [OF 1(1)]
              by (simp add: bind_bool_of [OF 1(2)])
          next
            case False
            have "returns r U (point_value (barracks_correct_placement r))
               (bind barracks_in_middle_property (\<lambda>vb. bind (point_of vb) (\<lambda>barracks.
                  ret (PPoint (offset barracks (- 2, 0))))) st2)"
            proof (cases "barracks_in_middle r")
              case (Inl e)
              have g: "returns r U (Inl e) (barracks_in_middle_property st2)"
                using barracks_in_middle_property_returns [OF 1(1)]
                by (simp add: Inl point_value_def)
              have c: "point_value (barracks_correct_placement r) = Inl e"
                by (simp add: barracks_correct_placement_def 3(1) Inr False Inl point_value_def)
              show ?thesis
                unfolding c
                by (rule bind_returns_fail [where m = barracks_in_middle_property and st = st2, OF g])
                   (rule returns_Inl)
            next
              case barracks: (Inr barracks)
              have g: "returns r U (Inr (DPoint barracks)) (barracks_in_middle_property st2)"
                using barracks_in_middle_property_returns [OF 1(1)]
                by (simp add: barracks point_value_def)
              show ?thesis
              proof (rule bind_returns_ok [where m = barracks_in_middle_property and st = st2, OF g],
                  goal_cases)
                case (1 vb st3)
                show ?case
                  using 1(1)
                  by (simp add: bind_point_of [OF 1(2)] barracks_correct_placement_def 3(1) Inr
                      False barracks point_value_def ret_def returns_point)
              qed
            qed
            then show ?thesis
              using False by (simp add: bind_bool_of [OF 1(2)])
          qed
        qed
      qed
    qed
  next
    case (2 dv)
    then show ?case
      by (auto simp: d point_value_def split: sum.splits)
  qed
  then show ?thesis
    unfolding d .
qed

section \<open>Histories of accessor calls and mutations\<close>

text \<open>
  \<open>Ramp.__init__\<close>: the object keeps a reference to the point set and starts with an
  empty cache. The point set is the object at address 0.
\<close>

definition new_ramp :: "ramp \<Rightarrow> ramp_object" where
  "new_ramp r =
     \<lparr>self_points = 0,
      self_heights = height_at r,
      objects = (\<lambda>a. GridSet [])(0 := GridSet (ramp_points r)),
      next_addr = 1,
      cache = Map.empty\<rparr>"

text \<open>
  What a caller does with a Ramp: it reads an accessor and keeps the value, or it mutates
  a set that an earlier read returned (the \<open>k\<close>-th value it holds), which may leave the set
  with any elements at all.
\<close>

datatype event = Access string | Mutate nat pyobj

fun run :: "event list \<Rightarrow> ramp_object \<times> pyval list \<Rightarrow> ramp_object \<times> pyval list" where
  "run [] s = s"
| "run (Access name # evs) (st, held) =
     (case getattr name st of
        (Inl e, st1) \<Rightarrow> run evs (st1, held)
      | (Inr v, st1) \<Rightarrow> run evs (st1, held @ [v]))"
| "run (Mutate k obj # evs) (st, held) =
     (if k < length held then
        (case held ! k of
           Ref a \<Rightarrow> run evs (st\<lparr>objects := (objects st)(a := obj)\<rparr>, held)
         | _ \<Rightarrow> run evs (st, held))
      else run evs (st, held))"

text \<open>The outcome of a call at the moment it returns: the exception, or the value by its content.\<close>

definition outcome :: "(error + pyval) \<times> ramp_object \<Rightarrow> error + dval" where
  "outcome out = (case fst out of Inl e \<Rightarrow> Inl e | Inr v \<Rightarrow> Inr (value_of (snd out) v))"

definition refs :: "pyval list \<Rightarrow> addr set" where
  "refs held = {a. Ref a \<in> set held}"

lemma grid_value_Inr: "grid_value (Inr ps) = Inr (DSet (GridSet ps))"
  by (simp add: grid_value_def)

lemma getattr_returns:
  assumes "ramp_inv r U st"
  shows "returns r U (denotation r name) (getattr name st)"
  unfolding getattr_def denotation_def
  using assms
  by (simp add: points_property_returns upper_property_returns lower_property_returns
      top_center_property_returns bottom_center_property_returns
      upper2_for_ramp_wall_property_returns barracks_in_middle_property_returns
      depot_in_middle_property_returns corner_depots_property_returns
      barracks_can_fit_addon_property_returns barracks_correct_placement_property_returns
      raise_returns grid_value_Inr)

lemma returns_outcome: "returns r U d out \<Longrightarrow> outcome out = d"
  by (cases d) (auto simp: returns_def outcome_def)

lemma new_ramp_inv: "ramp_inv r {} (new_ramp r)"
  by (simp add: ramp_inv_def new_ramp_def)

lemma run_inv:
  assumes "ramp_inv r (refs held) st" and "run evs (st, held) = (st', held')"
  shows "ramp_inv r (refs held') st'"
  using assms
proof (induction evs arbitrary: st held)
  case Nil
  then show ?case by simp
next
  case (Cons ev evs)
  show ?case
  proof (cases ev)
    case (Access name)
    obtain res st1 where out: "getattr name st = (res, st1)"
      by (cases "getattr name st")
    have ret: "returns r (refs held) (denotation r name) (res, st1)"
      using getattr_returns [OF Cons.prems(1), of name] out by simp
    show ?thesis
    proof (cases res)
      case (Inl e)
      have "ramp_inv r (refs held) st1"
        using ret by (simp add: returns_def)
      moreover have "run evs (st1, held) = (st', held')"
        using Cons.prems(2) Access out Inl by simp
      ultimately show ?thesis
        by (rule Cons.IH)
    next
      case (Inr v)
      have i1: "ramp_inv r (refs held) st1"
        and new: "\<And>a. v = Ref a \<Longrightarrow> ramp_inv r (insert a (refs held)) st1"
        using ret Inr by (cases "denotation r name"; auto simp: returns_def)+
      have "ramp_inv r (refs (held @ [v])) st1"
      proof (cases v)
        case (Ref a)
        have "refs (held @ [v]) = insert a (refs held)"
          by (auto simp: refs_def Ref)
        then show ?thesis
          using new [OF Ref] by simp
      next
        case (PPoint p)
        have "refs (held @ [v]) = refs held"
          by (auto simp: refs_def PPoint)
        then show ?thesis
          using i1 by simp
      next
        case (PBool b)
        have "refs (held @ [v]) = refs held"
          by (auto simp: refs_def PBool)
        then show ?thesis
          using i1 by simp
      qed
      moreover have "run evs (st1, held @ [v]) = (st', held')"
        using Cons.prems(2) Access out Inr by simp
      ultimately show ?thesis
        by (rule Cons.IH)
    qed
  next
    case (Mutate k obj)
    show ?thesis
    proof (cases "k < length held \<and> (\<exists>a. held ! k = Ref a)")
      case True
      then obtain a where a: "k < length held" "held ! k = Ref a"
        by blast
      then have "a \<in> refs held"
        by (auto simp: refs_def dest: nth_mem)
      then have "ramp_inv r (refs held) (st\<lparr>objects := (objects st)(a := obj)\<rparr>)"
        by (rule inv_mutate [OF Cons.prems(1)])
      moreover have "run evs (st\<lparr>objects := (objects st)(a := obj)\<rparr>, held) = (st', held')"
        using Cons.prems(2) Mutate a by simp
      ultimately show ?thesis
        by (rule Cons.IH)
    next
      case False
      then have "run evs (st, held) = (st', held')"
        using Cons.prems(2) Mutate by (auto split: if_splits pyval.splits)
      then show ?thesis
        by (rule Cons.IH [OF Cons.prems(1)])
    qed
  qed
qed

text \<open>
  C9. After any history of accessor calls and of mutations of the sets that those calls
  returned, a call of any of the accessors \<open>points\<close>, \<open>upper\<close>, \<open>lower\<close>, \<open>top_center\<close>,
  \<open>bottom_center\<close>, \<open>upper2_for_ramp_wall\<close>, \<open>barracks_in_middle\<close>, \<open>depot_in_middle\<close>,
  \<open>corner_depots\<close>, \<open>barracks_can_fit_addon\<close> and \<open>barracks_correct_placement\<close> has the
  outcome that the Region's points and heights determine. So repeated calls return equal
  values, and no mutation of a returned set changes what a later call returns.
\<close>

theorem accessors_stable:
  "outcome (getattr name (fst (run evs (new_ramp r, [])))) = denotation r name \<and>
   outcome (getattr name (fst (run (evs @ evs') (new_ramp r, [])))) =
     outcome (getattr name (fst (run evs (new_ramp r, []))))"
proof -
  have at: "outcome (getattr name (fst (run h (new_ramp r, [])))) = denotation r name" for h
  proof -
    obtain st held where run: "run h (new_ramp r, []) = (st, held)"
      by (cases "run h (new_ramp r, [])")
    have "ramp_inv r (refs []) (new_ramp r)"
      using new_ramp_inv by (simp add: refs_def)
    then have "ramp_inv r (refs held) st"
      using run by (rule run_inv)
    then have "returns r (refs held) (denotation r name) (getattr name st)"
      by (rule getattr_returns)
    then show ?thesis
      using run by (simp add: returns_outcome)
  qed
  show ?thesis
    using at [of evs] at [of "evs @ evs'"] by simp
qed

theorem accessors_stable_witness:
  "outcome (getattr ''upper2_for_ramp_wall''
     (fst (run [Access ''upper2_for_ramp_wall'', Mutate 0 (GridSet []),
                Access ''barracks_in_middle'']
            (new_ramp step_ramp, [])))) =
   Inr (DSet (GridSet [(0, 1), (1, 1)]))"
  using accessors_stable [of "''upper2_for_ramp_wall''"
      "[Access ''upper2_for_ramp_wall'', Mutate 0 (GridSet []), Access ''barracks_in_middle'']"
      step_ramp "[]"]
  by (simp add: denotation_def grid_value_def upper2_step_ramp)

end
